theory Spec2Isabelle
  imports Complex_Main
begin

section \<open>Values and errors\<close>

text \<open>
  A JavaScript number as far as the circuit breaker's counter needs it: an integer, or the
  \<open>NaN\<close> that arithmetic on \<open>undefined\<close> produces.
\<close>

datatype jsnum = Num int | NaN

fun jsnum_inc :: "jsnum \<Rightarrow> jsnum" where
  "jsnum_inc (Num n) = Num (n + 1)"
| "jsnum_inc NaN = NaN"

text \<open>\<open>a > t\<close> where \<open>t\<close> may be \<open>undefined\<close>: any comparison with \<open>NaN\<close> is false.\<close>

fun jsnum_gt :: "jsnum \<Rightarrow> int option \<Rightarrow> bool" where
  "jsnum_gt (Num n) (Some t) = (t < n)"
| "jsnum_gt _ _ = False"

text \<open>
  The values an operation can produce and a policy can be told to watch for. Objects are
  references into a heap; two objects are the same value only when they are the same
  reference.
\<close>

datatype jsval = VUndefined | VNull | VBool bool | VNumber jsnum | VString string | VObject nat

text \<open>
  What can be thrown. \<open>TimeoutError\<close> (TimeoutError.js) carries the duration it was built
  with; \<open>OpenCircuitError\<close> (OpenCircuitError.js) carries nothing. \<open>ArgumentError\<close> is what
  the Guard helper raises, \<open>TypeError\<close> what the runtime raises when a missing function is
  called or a property of \<open>undefined\<close> or \<open>null\<close> is read. \<open>OperationError name message\<close> is
  any other object with a \<open>name\<close> property that user code throws or rejects with, and
  \<open>Thrown v\<close> any other value so used: \<open>undefined\<close>, \<open>null\<close>, a primitive, an object
  without a name.
\<close>

datatype jserror =
    ArgumentError string
  | OpenCircuitError
  | TimeoutError nat
  | TypeError string
  | OperationError string string
  | Thrown jsval

text \<open>The \<open>name\<close> property of what was thrown, \<open>None\<close> when it has none.\<close>

fun error_name :: "jserror \<Rightarrow> string option" where
  "error_name (ArgumentError _) = Some ''ArgumentError''"
| "error_name OpenCircuitError = Some ''OpenCircuitError''"
| "error_name (TimeoutError _) = Some ''TimeoutError''"
| "error_name (TypeError _) = Some ''TypeError''"
| "error_name (OperationError n _) = Some n"
| "error_name (Thrown _) = None"

text \<open>
  The expression \<open>e.name\<close>: reading a property of \<open>undefined\<close> or \<open>null\<close> raises a
  \<open>TypeError\<close>, reading a property that a value does not have gives \<open>undefined\<close>.
\<close>

fun read_name :: "jserror \<Rightarrow> jserror + string option" where
  "read_name (Thrown VUndefined) =
     Inl (TypeError ''Cannot read properties of undefined (reading name)'')"
| "read_name (Thrown VNull) = Inl (TypeError ''Cannot read properties of null (reading name)'')"
| "read_name e = Inr (error_name e)"

section \<open>CircuitBreaker.js\<close>

datatype CircuitState = Closed | HalfOpen | Isolated | Open

text \<open>
  The frozen object \<open>CircuitState\<close> has the keys Closed, HalfOpen, Isolated and Open. The
  source also reads \<open>CircuitState.Isolate\<close>, a key the object does not have: that
  expression is \<open>undefined\<close>, here \<open>None\<close>.
\<close>

definition CircuitState_Isolate :: "CircuitState option" where
  "CircuitState_Isolate = None"

text \<open>
  The fields of the class. \<open>cbAttempts\<close> is the field \<open>attempts\<close> (renamed, the execution
  context has a field of that name too). \<open>onTrip\<close> says whether a hook is installed, and
  \<open>trips\<close> lists the calls made to it, oldest first. \<open>timerId\<close> stands for the pending
  reset timer: the time at which it is due, \<open>None\<close> when no timer is pending.
\<close>

record CircuitBreaker =
  cbAttempts :: jsnum
  failureThreshold :: "int option"
  onTrip :: bool
  openTimestamp :: "nat option"
  resetTimeout :: nat
  state :: CircuitState
  timerId :: "nat option"
  trips :: "(CircuitState \<times> CircuitState) list"

definition new_CircuitBreaker :: CircuitBreaker where
  "new_CircuitBreaker =
     \<lparr>cbAttempts = Num 0, failureThreshold = None, onTrip = False, openTimestamp = None,
      resetTimeout = 0, state = Closed, timerId = None, trips = []\<rparr>"

text \<open>
  Modelled from the spec: \<open>Guard.assertEnum\<close>, of the validation helper imported from
  \<open>../Guard/Guard.js\<close>, whose source is not part of the repository. The spec describes it
  as rejecting malformed input with an argument error: a member of the enumeration passes,
  anything else (here only \<open>undefined\<close>) raises.
\<close>

fun Guard_assertEnum :: "CircuitState option \<Rightarrow> jserror + CircuitState" where
  "Guard_assertEnum (Some s) = Inr s"
| "Guard_assertEnum None = Inl (ArgumentError ''CircuitState'')"

text \<open>
  The other checks of the same helper, \<open>Guard.assertType\<close> and \<open>Guard.assertCondition\<close>,
  are written out where they are called: a builder whose check fails raises an
  \<open>ArgumentError\<close> and changes nothing. Were \<open>assertEnum\<close> to let \<open>undefined\<close> through,
  \<open>isolate()\<close> would set the state to \<open>undefined\<close>, which is not \<open>Isolated\<close> either.
\<close>

text \<open>
  \<open>transitionTo(circuitBreaker, state)\<close> at time \<open>now\<close>. The branch for
  \<open>CircuitState.Isolate\<close> compares the new state with \<open>undefined\<close>; no member of the
  enumeration equals it, so entering \<open>Isolated\<close> runs none of the four branches.
\<close>

definition transitionTo :: "CircuitBreaker \<Rightarrow> CircuitState option \<Rightarrow> nat \<Rightarrow> jserror + CircuitBreaker" where
  "transitionTo circuitBreaker target now =
     (case Guard_assertEnum target of
        Inl e \<Rightarrow> Inl e
      | Inr st \<Rightarrow>
          if state circuitBreaker = st then Inr circuitBreaker
          else
            let from = state circuitBreaker;
                cb1 = circuitBreaker\<lparr>state := st\<rparr>;
                cb2 =
                  (if st = Closed then
                     cb1\<lparr>cbAttempts := Num 0, openTimestamp := None, timerId := None\<rparr>
                   else if st = HalfOpen then
                     cb1\<lparr>cbAttempts :=
                            (case failureThreshold cb1 of Some t \<Rightarrow> Num (t - 1) | None \<Rightarrow> NaN)\<rparr>
                   else if Some st = CircuitState_Isolate then
                     cb1\<lparr>openTimestamp := Some now, timerId := None\<rparr>
                   else if st = Open then
                     cb1\<lparr>timerId := Some (now + resetTimeout cb1), openTimestamp := Some now\<rparr>
                   else cb1)
            in Inr (if onTrip cb2 then cb2\<lparr>trips := trips cb2 @ [(from, st)]\<rparr> else cb2))"

definition CircuitBreaker_close :: "CircuitBreaker \<Rightarrow> nat \<Rightarrow> jserror + CircuitBreaker" where
  "CircuitBreaker_close cb now = transitionTo cb (Some Closed) now"

definition CircuitBreaker_open :: "CircuitBreaker \<Rightarrow> nat \<Rightarrow> jserror + CircuitBreaker" where
  "CircuitBreaker_open cb now = transitionTo cb (Some Open) now"

definition CircuitBreaker_isolate :: "CircuitBreaker \<Rightarrow> nat \<Rightarrow> jserror + CircuitBreaker" where
  "CircuitBreaker_isolate cb now = transitionTo cb CircuitState_Isolate now"

text \<open>\<open>CircuitBreaker.execute\<close>: \<open>Inl\<close> is the error thrown, \<open>Inr\<close> the breaker after the call.\<close>

definition CircuitBreaker_execute :: "CircuitBreaker \<Rightarrow> nat \<Rightarrow> jserror + CircuitBreaker" where
  "CircuitBreaker_execute cb now =
     (if Some (state cb) = CircuitState_Isolate \<or> state cb = Open then Inl OpenCircuitError
      else
        let cb1 = cb\<lparr>cbAttempts := jsnum_inc (cbAttempts cb)\<rparr>
        in if jsnum_gt (cbAttempts cb1) (failureThreshold cb1)
           then transitionTo cb1 (Some Open) now
           else Inr cb1)"

definition ifTripped :: "CircuitBreaker \<Rightarrow> CircuitBreaker" where
  "ifTripped cb = cb\<lparr>onTrip := True\<rparr>"

definition resetAfter :: "int \<Rightarrow> CircuitBreaker \<Rightarrow> jserror + CircuitBreaker" where
  "resetAfter d cb =
     (if 0 < d then Inr (cb\<lparr>resetTimeout := nat d\<rparr>) else Inl (ArgumentError ''delay''))"

definition openCircuitAfter :: "int \<Rightarrow> CircuitBreaker \<Rightarrow> jserror + CircuitBreaker" where
  "openCircuitAfter threshold cb =
     (if 0 < threshold then Inr (cb\<lparr>failureThreshold := Some threshold\<rparr>)
      else Inl (ArgumentError ''failureThreshold''))"

text \<open>
  The callback given to \<open>setTimeout\<close> when the circuit opens:
  \<open>() => transitionTo(circuitBreaker, CircuitState.HalfOpen)\<close>. It runs once the timer is
  due; an error raised inside it reaches nobody and leaves the breaker as it was.
\<close>

definition timer_fires :: "CircuitBreaker \<Rightarrow> nat \<Rightarrow> CircuitBreaker" where
  "timer_fires cb now =
     (case transitionTo (cb\<lparr>timerId := None\<rparr>) (Some HalfOpen) now of
        Inl e \<Rightarrow> cb\<lparr>timerId := None\<rparr>
      | Inr cb' \<Rightarrow> cb')"

text \<open>The breaker once the clock shows \<open>now\<close>: a pending timer that is due has fired.\<close>

definition elapse :: "CircuitBreaker \<Rightarrow> nat \<Rightarrow> CircuitBreaker" where
  "elapse cb now =
     (case timerId cb of
        None \<Rightarrow> cb
      | Some due \<Rightarrow> if due \<le> now then timer_fires cb now else cb)"

text \<open>\<open>n\<close> calls of \<open>execute\<close> in a row with nothing in between, stopping at the first throw.\<close>

fun executes :: "nat \<Rightarrow> CircuitBreaker \<Rightarrow> nat \<Rightarrow> jserror + CircuitBreaker" where
  "executes 0 cb now = Inr cb"
| "executes (Suc n) cb now =
     (case CircuitBreaker_execute cb now of Inl e \<Rightarrow> Inl e | Inr cb' \<Rightarrow> executes n cb' now)"

section \<open>RetryPolicy.js\<close>

text \<open>Strict equality \<open>===\<close>, by the type of the operands; \<open>NaN\<close> equals nothing.\<close>

fun strict_eq :: "jsval \<Rightarrow> jsval \<Rightarrow> bool" where
  "strict_eq VUndefined b = (b = VUndefined)"
| "strict_eq VNull b = (b = VNull)"
| "strict_eq (VBool x) b = (b = VBool x)"
| "strict_eq (VNumber NaN) b = False"
| "strict_eq (VNumber (Num x)) b = (b = VNumber (Num x))"
| "strict_eq (VString x) b = (b = VString x)"
| "strict_eq (VObject x) b = (b = VObject x)"

text \<open>
  \<open>Array.prototype.indexOf\<close>: the index of the first element strictly equal to the value
  searched, \<open>-1\<close> when there is none.
\<close>

fun indexOf_from :: "jsval list \<Rightarrow> jsval \<Rightarrow> int \<Rightarrow> int" where
  "indexOf_from [] v i = - 1"
| "indexOf_from (x # xs) v i = (if strict_eq x v then i else indexOf_from xs v (i + 1))"

definition indexOf :: "jsval list \<Rightarrow> jsval \<Rightarrow> int" where
  "indexOf xs v = indexOf_from xs v 0"

text \<open>
  What objects hold: a heap gives each live reference its properties. Two values are
  structurally equal here when they are objects with the same properties.
\<close>

type_synonym heap = "nat \<Rightarrow> (string \<times> jsval) list option"

definition structurally_equal :: "heap \<Rightarrow> jsval \<Rightarrow> jsval \<Rightarrow> bool" where
  "structurally_equal h a b =
     (case (a, b) of
        (VObject p, VObject q) \<Rightarrow> (case h p of None \<Rightarrow> False | Some fs \<Rightarrow> h q = Some fs)
      | _ \<Rightarrow> False)"

datatype Backoff = Static | Linear | Exponential | Random

text \<open>\<open>onAbort\<close> and \<open>onRetry\<close> say whether the hook is installed.\<close>

record RetryPolicy =
  abortConditions :: "jsval list"
  backoff :: Backoff
  delay :: nat
  maxAttempts :: nat
  onAbort :: bool
  onRetry :: bool
  retryConditions :: "jsval list"

definition new_RetryPolicy :: RetryPolicy where
  "new_RetryPolicy =
     \<lparr>abortConditions = [], backoff = Static, delay = 0, maxAttempts = 1, onAbort = False,
      onRetry = False, retryConditions = []\<rparr>"

definition abortIf :: "jsval \<Rightarrow> RetryPolicy \<Rightarrow> RetryPolicy" where
  "abortIf predicate p = p\<lparr>abortConditions := abortConditions p @ [predicate]\<rparr>"

definition canAbortIf :: "RetryPolicy \<Rightarrow> jsval \<Rightarrow> bool" where
  "canAbortIf p result = (indexOf (abortConditions p) result > - 1)"

definition canRetryIf :: "RetryPolicy \<Rightarrow> jsval \<Rightarrow> bool" where
  "canRetryIf p result = (indexOf (retryConditions p) result > - 1)"

definition delayBetweenRetries :: "int \<Rightarrow> RetryPolicy \<Rightarrow> jserror + RetryPolicy" where
  "delayBetweenRetries d p =
     (if d > - 1 then Inr (p\<lparr>delay := nat d\<rparr>) else Inl (ArgumentError ''delay''))"

definition ifAbort :: "RetryPolicy \<Rightarrow> RetryPolicy" where
  "ifAbort p = p\<lparr>onAbort := True\<rparr>"

definition ifRetry :: "RetryPolicy \<Rightarrow> RetryPolicy" where
  "ifRetry p = p\<lparr>onRetry := True\<rparr>"

definition retryIf :: "jsval \<Rightarrow> RetryPolicy \<Rightarrow> RetryPolicy" where
  "retryIf predicate p = p\<lparr>retryConditions := retryConditions p @ [predicate]\<rparr>"

definition stopAfter :: "int \<Rightarrow> RetryPolicy \<Rightarrow> jserror + RetryPolicy" where
  "stopAfter n p =
     (if n > 0 then Inr (p\<lparr>maxAttempts := nat n\<rparr>) else Inl (ArgumentError ''maxAttempts''))"

definition useBackOff :: "Backoff \<Rightarrow> RetryPolicy \<Rightarrow> RetryPolicy" where
  "useBackOff b p = p\<lparr>backoff := b\<rparr>"

text \<open>
  A policy is configured by a chain of calls on a new object. A call whose guard raises
  leaves the policy as it was.
\<close>

datatype policy_call =
    AbortIf jsval | RetryIf jsval | StopAfter int | DelayBetweenRetries int
  | UseBackOff Backoff | IfAbort | IfRetry

fun policy_apply :: "RetryPolicy \<Rightarrow> policy_call \<Rightarrow> RetryPolicy" where
  "policy_apply p (AbortIf v) = abortIf v p"
| "policy_apply p (RetryIf v) = retryIf v p"
| "policy_apply p (StopAfter n) = (case stopAfter n p of Inl e \<Rightarrow> p | Inr p' \<Rightarrow> p')"
| "policy_apply p (DelayBetweenRetries d) =
     (case delayBetweenRetries d p of Inl e \<Rightarrow> p | Inr p' \<Rightarrow> p')"
| "policy_apply p (UseBackOff b) = useBackOff b p"
| "policy_apply p IfAbort = ifAbort p"
| "policy_apply p IfRetry = ifRetry p"

definition configured :: "policy_call list \<Rightarrow> RetryPolicy" where
  "configured calls = foldl policy_apply new_RetryPolicy calls"

section \<open>Resilient.js\<close>

subsection \<open>The execution context and the orchestrator's fields\<close>

text \<open>
  \<open>elapsedTime\<close> is a difference of two clock readings, \<open>NaN\<close> if the start time were
  still \<open>undefined\<close>.
\<close>

record ExecutionContext =
  attempts :: nat
  correlationId :: string
  elapsedTime :: jsnum
  exceptions :: "jserror list"
  startTime :: "nat option"

definition new_ExecutionContext :: "string \<Rightarrow> ExecutionContext" where
  "new_ExecutionContext guid =
     \<lparr>attempts = 0, correlationId = guid, elapsedTime = Num 0, exceptions = [],
      startTime = None\<rparr>"

text \<open>
  What one call of a function given by the user does: it returns a promise that is
  fulfilled with a value (\<open>Returns\<close>) or rejected (\<open>Throws\<close>), or it throws before it
  returns anything (\<open>Raises\<close>).
\<close>

datatype op_result = Returns jsval | Throws jserror | Raises jserror

text \<open>
  The fields of a \<open>Resilient\<close> object, the declared ones and those its methods add
  (\<open>throttleLimit\<close> and the hooks). A hook field says whether the hook is installed; a
  numeric field that was never assigned is \<open>None\<close>. The field \<open>executionContext\<close> is kept
  beside the object, in the world below.
\<close>

record Resilient =
  circuitBreaker :: "CircuitBreaker option"
  fallbackExecution :: "op_result option"
  rateLimit :: "nat option"
  retryPolicy :: "RetryPolicy option"
  timeout :: "nat option"
  throttleLimit :: "nat option"
  onEntry :: bool
  onExit :: bool
  onFailure :: bool
  onFallback :: bool
  onSuccess :: bool
  onThrottled :: bool
  onTimeout :: bool

definition new_Resilient :: Resilient where
  "new_Resilient =
     \<lparr>circuitBreaker = None, fallbackExecution = None, rateLimit = None, retryPolicy = None,
      timeout = None, throttleLimit = None, onEntry = False, onExit = False,
      onFailure = False, onFallback = False, onSuccess = False, onThrottled = False,
      onTimeout = False\<rparr>"

definition fallbackTo :: "op_result \<Rightarrow> Resilient \<Rightarrow> Resilient" where
  "fallbackTo f r = r\<lparr>fallbackExecution := Some f\<rparr>"

definition ifFailure :: "Resilient \<Rightarrow> Resilient" where
  "ifFailure r = r\<lparr>onFailure := True\<rparr>"

definition ifFallback :: "Resilient \<Rightarrow> Resilient" where
  "ifFallback r = r\<lparr>onFallback := True\<rparr>"

definition ifSuccess :: "Resilient \<Rightarrow> Resilient" where
  "ifSuccess r = r\<lparr>onSuccess := True\<rparr>"

definition ifThrottled :: "Resilient \<Rightarrow> Resilient" where
  "ifThrottled r = r\<lparr>onThrottled := True\<rparr>"

definition ifTimeout :: "Resilient \<Rightarrow> Resilient" where
  "ifTimeout r = r\<lparr>onTimeout := True\<rparr>"

definition retryWith :: "RetryPolicy \<Rightarrow> Resilient \<Rightarrow> Resilient" where
  "retryWith p r = r\<lparr>retryPolicy := Some p\<rparr>"

definition shortCircuitWith :: "CircuitBreaker \<Rightarrow> Resilient \<Rightarrow> Resilient" where
  "shortCircuitWith cb r = r\<lparr>circuitBreaker := Some cb\<rparr>"

definition timeoutAfter :: "int \<Rightarrow> Resilient \<Rightarrow> jserror + Resilient" where
  "timeoutAfter t r =
     (if t > 0 then Inr (r\<lparr>timeout := Some (nat t)\<rparr>) else Inl (ArgumentError ''timeout''))"

text \<open>The method \<open>throttle(rateLimit)\<close>: it assigns \<open>this.throttleLimit\<close>.\<close>

definition Resilient_throttle :: "int \<Rightarrow> Resilient \<Rightarrow> jserror + Resilient" where
  "Resilient_throttle limit r =
     (if limit > 0 then Inr (r\<lparr>throttleLimit := Some (nat limit)\<rparr>)
      else Inl (ArgumentError ''rateLimit''))"

definition whenEntering :: "Resilient \<Rightarrow> Resilient" where
  "whenEntering r = r\<lparr>onEntry := True\<rparr>"

definition whenExiting :: "Resilient \<Rightarrow> Resilient" where
  "whenExiting r = r\<lparr>onExit := True\<rparr>"

subsection \<open>The world around one call\<close>

text \<open>
  What a run leaves behind for an observer: each hook call with the context it was given,
  each call of the operation (its number within the run and the time of the call), each
  wait between attempts, and the call of the fallback.
\<close>

datatype hook =
    OnEntry | OnRetry | OnAbort | OnSuccess | OnFailure | OnExit | OnTimeout | OnFallback
  | OnThrottled

datatype event =
    HookCalled hook ExecutionContext
  | Invoked nat nat
  | Waited nat
  | FallbackInvoked

text \<open>
  What a call of an installed hook does, given the context it is called with: it returns
  (or its promise is fulfilled), it throws, or it returns a promise that is rejected.
\<close>

datatype hook_result = Done | ThrowsNow jserror | Rejects jserror

text \<open>
  The surroundings of one call of \<open>execute\<close>. \<open>userCode\<close> is \<open>None\<close> when the argument is
  not a function; otherwise it gives, for the \<open>k\<close>-th call of the operation in this run,
  the time the call takes to settle and what it does. \<open>guid\<close> is the identifier
  \<open>newGuid\<close> draws, \<open>mathRandom\<close> the successive results of \<open>Math.random()\<close>, and
  \<open>hookCode\<close> what the function installed as a hook does. Hooks and operations read what
  they are given and change nothing of it, a hook settles at once, and the \<open>onTrip\<close> hook
  of a breaker returns normally.
\<close>

record Environment =
  userCode :: "(nat \<Rightarrow> nat \<times> op_result) option"
  guid :: string
  mathRandom :: "nat \<Rightarrow> rat"
  hookCode :: "hook \<Rightarrow> ExecutionContext \<Rightarrow> hook_result"

text \<open>
  The state a run works on: the object, its field \<open>executionContext\<close>, the clock
  (\<open>Date.now()\<close>, in milliseconds), what has been observed so far, and how many random
  numbers have been drawn. Before the first run the field \<open>executionContext\<close> is
  \<open>undefined\<close>; \<open>execute\<close> assigns it before reading it.
\<close>

record World =
  resilient :: Resilient
  executionContext :: ExecutionContext
  clock :: nat
  trace :: "event list"
  draws :: nat

definition new_World :: "Resilient \<Rightarrow> nat \<Rightarrow> World" where
  "new_World r now =
     \<lparr>resilient = r, executionContext = new_ExecutionContext [], clock = now, trace = [], draws = 0\<rparr>"

text \<open>
  A call \<open>hook(this.executionContext)\<close>: the call is observed, and the hook does what it
  does. Where the call is awaited, a throw and a rejection both raise at that point; where
  it is not, only a throw does.
\<close>

definition call_hook :: "Environment \<Rightarrow> hook \<Rightarrow> World \<Rightarrow> hook_result \<times> World" where
  "call_hook env h w =
     (hookCode env h (executionContext w),
      w\<lparr>trace := trace w @ [HookCalled h (executionContext w)]\<rparr>)"

fun awaited :: "hook_result \<Rightarrow> jserror option" where
  "awaited Done = None"
| "awaited (ThrowsNow e) = Some e"
| "awaited (Rejects e) = Some e"

fun not_awaited :: "hook_result \<Rightarrow> jserror option" where
  "not_awaited Done = None"
| "not_awaited (ThrowsNow e) = Some e"
| "not_awaited (Rejects e) = None"

text \<open>
  \<open>if (hook != null) await hook(this.executionContext)\<close>: the error raised, if any, and
  the world after the call.
\<close>

definition await_hook :: "Environment \<Rightarrow> bool \<Rightarrow> hook \<Rightarrow> World \<Rightarrow> jserror option \<times> World" where
  "await_hook env installed h w =
     (if installed then (awaited (fst (call_hook env h w)), snd (call_hook env h w))
      else (None, w))"

text \<open>
  Awaiting something that takes \<open>d\<close> milliseconds: the clock moves on and a reset timer of
  the attached breaker that has become due fires meanwhile. Awaiting what is already
  settled (\<open>d = 0\<close>) gives no timer a chance to run.
\<close>

definition advance :: "nat \<Rightarrow> World \<Rightarrow> World" where
  "advance d w =
     (if d = 0 then w
      else
        let t = clock w + d
        in w\<lparr>clock := t,
             resilient := (resilient w)
               \<lparr>circuitBreaker :=
                  map_option (\<lambda>cb. elapse cb t) (circuitBreaker (resilient w))\<rparr>\<rparr>)"

subsection \<open>Numbers\<close>

text \<open>
  The arithmetic of \<open>wait\<close> is that of IEEE doubles. A finite double is a rational here,
  and \<open>fl\<close> rounds a rational to the nearest double, ties to the even significand: a value
  whose magnitude lies in the binade from \<open>2^e\<close> to \<open>2^(e+1)\<close> is rounded to a multiple of
  \<open>2^(e-52)\<close>, and below \<open>2^-1022\<close> to a multiple of \<open>2^-1074\<close>. Magnitudes from \<open>2^1024\<close>
  on, which a double turns into \<open>Infinity\<close>, are not modelled.
\<close>

fun ilog2 :: "nat \<Rightarrow> nat" where
  "ilog2 n = (if n < 2 then 0 else Suc (ilog2 (n div 2)))"

declare ilog2.simps [simp del]

definition clog2 :: "nat \<Rightarrow> nat" where
  "clog2 m = (if m \<le> 1 then 0 else Suc (ilog2 (m - 1)))"

definition pow2 :: "int \<Rightarrow> rat" where
  "pow2 e = (if 0 \<le> e then 2 ^ nat e else 1 / 2 ^ nat (- e))"

text \<open>The exponent \<open>e\<close> with \<open>2^e \<le> x < 2^(e+1)\<close>, for a positive \<open>x\<close>.\<close>

definition binade :: "rat \<Rightarrow> int" where
  "binade x = (if 1 \<le> x then int (ilog2 (nat \<lfloor>x\<rfloor>)) else - int (clog2 (nat \<lceil>1 / x\<rceil>)))"

definition quantum :: "rat \<Rightarrow> rat" where
  "quantum x = pow2 (max (binade x) (- 1022) - 52)"

definition roundTiesToEven :: "rat \<Rightarrow> int" where
  "roundTiesToEven y =
     (let f = \<lfloor>y\<rfloor>; r = y - of_int f
      in if r < 1 / 2 then f else if 1 / 2 < r then f + 1 else if even f then f else f + 1)"

definition fl :: "rat \<Rightarrow> rat" where
  "fl x =
     (if x = 0 then 0
      else sgn x * (quantum \<bar>x\<bar> * of_int (roundTiesToEven (\<bar>x\<bar> / quantum \<bar>x\<bar>))))"


subsection \<open>shouldRetry, throttle, wait\<close>

definition shouldRetry :: "World \<Rightarrow> bool" where
  "shouldRetry w =
     (case retryPolicy (resilient w) of
        Some p \<Rightarrow>
          if maxAttempts p = 0 then True
          else attempts (executionContext w) < maxAttempts p
      | None \<Rightarrow> attempts (executionContext w) = 0)"

text \<open>
  The function \<open>throttle(userCode, rateLimit)\<close> returns a closure over two variables,
  \<open>lastRan\<close> and \<open>lastExecution\<close> (the pending deferred call, given here by its due time).
  \<open>throttle_call\<close> is one call of that closure at time \<open>now\<close>: the boolean says whether
  the operation was called at once. \<open>!lastRan\<close> holds for \<open>undefined\<close> and for \<open>0\<close>.
\<close>

record Throttle =
  lastRan :: "nat option"
  lastExecution :: "nat option"

definition new_Throttle :: Throttle where
  "new_Throttle = \<lparr>lastRan = None, lastExecution = None\<rparr>"

definition throttle_call :: "nat \<Rightarrow> Throttle \<Rightarrow> nat \<Rightarrow> bool \<times> Throttle" where
  "throttle_call limit t now =
     (case lastRan t of
        None \<Rightarrow> (True, t\<lparr>lastRan := Some now\<rparr>)
      | Some lr \<Rightarrow>
          if lr = 0 then (True, t\<lparr>lastRan := Some now\<rparr>)
          else (False, t\<lparr>lastExecution := Some (now + (limit - (now - lr)))\<rparr>))"

text \<open>The deferred call, once its timer is due.\<close>

definition throttle_deferred :: "nat \<Rightarrow> Throttle \<Rightarrow> nat \<Rightarrow> bool \<times> Throttle" where
  "throttle_deferred limit t now =
     (case lastRan t of
        None \<Rightarrow> (False, t\<lparr>lastExecution := None\<rparr>)
      | Some lr \<Rightarrow>
          if limit \<le> now - lr then (True, t\<lparr>lastRan := Some now, lastExecution := None\<rparr>)
          else (False, t\<lparr>lastExecution := None\<rparr>))"

text \<open>
  The delay \<open>wait\<close> computes from the policy, the context's attempt count and, for the
  random back-off, one result \<open>u\<close> of \<open>Math.random()\<close>. Every product is a product of
  doubles, and \<open>Math.pow(attempts, attempts)\<close> is taken as the double nearest to the power.
\<close>

definition wait_delay :: "RetryPolicy \<Rightarrow> nat \<Rightarrow> rat \<Rightarrow> rat" where
  "wait_delay p n u =
     (if backoff p = Exponential then fl (fl (of_nat (n ^ n)) * of_nat (delay p))
      else if backoff p = Linear then fl (of_nat n * of_nat (delay p))
      else if backoff p = Static then of_nat (delay p)
      else if backoff p = Random then fl (of_int (\<lfloor>fl (u * 10)\<rfloor> + 1) * of_nat (delay p))
      else of_nat (delay p))"

text \<open>
  \<open>wait\<close>: a timer of that delay, in whole milliseconds, and the promise it resolves is
  awaited.
\<close>

definition wait :: "Environment \<Rightarrow> RetryPolicy \<Rightarrow> World \<Rightarrow> World" where
  "wait env p w =
     (let d = nat \<lfloor>wait_delay p (attempts (executionContext w)) (mathRandom env (draws w))\<rfloor>;
          w1 = w\<lparr>trace := trace w @ [Waited d],
                 draws := (if backoff p = Random then draws w + 1 else draws w)\<rparr>
      in advance d w1)"

subsection \<open>One pass through the loop of execute\<close>

text \<open>
  How a pass ends: by \<open>return\<close>, \<open>break\<close> or \<open>continue\<close> (also at the end of the \<open>catch\<close>
  block), or by an error raised inside the \<open>catch\<close> block, which leaves the loop.
\<close>

datatype control = Return jsval | Break | Continue | Throw jserror

text \<open>
  The start of the \<open>try\<close> block: the error raised there, if any, and the world at that
  point. On a retry it reads \<open>this.retryPolicy.delay\<close>, which raises when there is no
  policy, waits if the delay is positive and calls \<open>onRetry\<close>; on the first pass it
  records the start time.
\<close>

definition before_attempt :: "Environment \<Rightarrow> World \<Rightarrow> jserror option \<times> World" where
  "before_attempt env w =
     (if attempts (executionContext w) > 0 then
        (case retryPolicy (resilient w) of
           None \<Rightarrow> (Some (TypeError ''retryPolicy is undefined''), w)
         | Some p \<Rightarrow>
             await_hook env (onRetry p) OnRetry (if delay p > 0 then wait env p w else w))
      else (None, w\<lparr>executionContext := (executionContext w)\<lparr>startTime := Some (clock w)\<rparr>\<rparr>))"

text \<open>\<open>if (this.circuitBreaker != null) this.circuitBreaker.execute(...)\<close>\<close>

definition short_circuit :: "World \<Rightarrow> jserror + World" where
  "short_circuit w =
     (case circuitBreaker (resilient w) of
        None \<Rightarrow> Inr w
      | Some cb \<Rightarrow>
          (case CircuitBreaker_execute cb (clock w) of
             Inl e \<Rightarrow> Inl e
           | Inr cb' \<Rightarrow> Inr (w\<lparr>resilient := (resilient w)\<lparr>circuitBreaker := Some cb'\<rparr>\<rparr>)))"

definition count_attempt :: "World \<Rightarrow> World" where
  "count_attempt w =
     w\<lparr>executionContext :=
         (executionContext w)\<lparr>attempts := attempts (executionContext w) + 1\<rparr>\<rparr>"

text \<open>
  A promise as the race sees it: it settles after some time, fulfilled with a value
  (\<open>Inr\<close>) or rejected with an error (\<open>Inl\<close>), or it never settles.
\<close>

datatype promise = Settles nat "jserror + jsval" | Pending

text \<open>
  \<open>Promise.race\<close>: the promise that settles first decides, and of two that settle at the
  same instant the one that comes first in the list. \<open>None\<close>: no promise ever settles.
\<close>

fun Promise_race :: "promise list \<Rightarrow> (nat \<times> (jserror + jsval)) option" where
  "Promise_race [] = None"
| "Promise_race (Pending # ps) = Promise_race ps"
| "Promise_race (Settles t x # ps) =
     (case Promise_race ps of
        None \<Rightarrow> Some (t, x)
      | Some (t', x') \<Rightarrow> if t' < t then Some (t', x') else Some (t, x))"

text \<open>
  What \<open>userCode()\<close> puts into the array. A call that throws before it returns a promise
  leaves the \<open>try\<close> block on the spot, with no race and no time passing: for all that
  follows it is a promise rejected at once.
\<close>

fun called_directly :: "nat \<times> op_result \<Rightarrow> promise" where
  "called_directly (d, Returns v) = Settles d (Inr v)"
| "called_directly (d, Throws e) = Settles d (Inl e)"
| "called_directly (d, Raises e) = Settles 0 (Inl e)"

text \<open>
  What \<open>new Promise(throttle(userCode, this.rateLimit))\<close> puts there. The new closure,
  called with the promise's two resolving functions, calls the operation at once and drops
  what it returns, so nothing settles the promise unless the operation throws, which
  rejects it. The operation is taken to ignore its arguments.
\<close>

fun called_throttled :: "nat \<times> op_result \<Rightarrow> promise" where
  "called_throttled (d, Raises e) = Settles 0 (Inl e)"
| "called_throttled (d, Returns v) = Pending"
| "called_throttled (d, Throws e) = Pending"

text \<open>
  The array \<open>promises\<close> of one attempt, given what the call of the operation does. The
  deadline, if \<open>this.timeout > 0\<close>, is pushed first.
\<close>

definition throttled :: "Resilient \<Rightarrow> nat option" where
  "throttled r = (case rateLimit r of None \<Rightarrow> None | Some l \<Rightarrow> if l > 0 then Some l else None)"

definition promises :: "Resilient \<Rightarrow> nat \<times> op_result \<Rightarrow> promise list" where
  "promises r call =
     (case timeout r of
        None \<Rightarrow> []
      | Some t \<Rightarrow> if t > 0 then [Settles t (Inl (TimeoutError t))] else [])
     @ [case throttled r of
          None \<Rightarrow> called_directly call
        | Some l \<Rightarrow> called_throttled call]"

text \<open>
  From \<open>let promises = []\<close> to \<open>await Promise.race(promises)\<close>. The operation is
  called while the array is built: directly, or by the first call of the new throttle
  closure. The result is what the race settles with and the world at that moment;
  \<open>None\<close> when the race never settles.
\<close>

definition invoke_and_race :: "(nat \<Rightarrow> nat \<times> op_result) \<Rightarrow> World \<Rightarrow> ((jserror + jsval) \<times> World) option" where
  "invoke_and_race code w =
     (let k = attempts (executionContext w);
          called =
            (case throttled (resilient w) of
               None \<Rightarrow> True
             | Some l \<Rightarrow> fst (throttle_call l new_Throttle (clock w)));
          w1 = (if called then w\<lparr>trace := trace w @ [Invoked k (clock w)]\<rparr> else w)
      in case Promise_race (promises (resilient w) (code k)) of
           None \<Rightarrow> None
         | Some (t, x) \<Rightarrow> Some (x, advance t w1))"

text \<open>\<open>if (this.circuitBreaker != null) this.circuitBreaker.close()\<close>\<close>

definition close_breaker :: "World \<Rightarrow> jserror + World" where
  "close_breaker w =
     (case circuitBreaker (resilient w) of
        None \<Rightarrow> Inr w
      | Some cb \<Rightarrow>
          (case CircuitBreaker_close cb (clock w) of
             Inl e \<Rightarrow> Inl e
           | Inr cb' \<Rightarrow> Inr (w\<lparr>resilient := (resilient w)\<lparr>circuitBreaker := Some cb'\<rparr>\<rparr>)))"

text \<open>From \<open>onSuccess\<close> to \<open>return result\<close>.\<close>

definition succeed :: "Environment \<Rightarrow> jsval \<Rightarrow> World \<Rightarrow> (jserror + control) \<times> World" where
  "succeed env result w =
     (case await_hook env (onSuccess (resilient w)) OnSuccess w of
        (Some e, w1) \<Rightarrow> (Inl e, w1)
      | (None, w1) \<Rightarrow>
          (case close_breaker w1 of
             Inl e \<Rightarrow> (Inl e, w1)
           | Inr w2 \<Rightarrow>
               (case await_hook env (onExit (resilient w2)) OnExit w2 of
                  (Some e, w3) \<Rightarrow> (Inl e, w3)
                | (None, w3) \<Rightarrow> (Inr (Return result), w3))))"

text \<open>
  What follows the race when it yields a result. \<open>this.retryPolicy.onAbort(...)\<close> is
  called without a test and without \<open>await\<close>: when no hook is installed the call itself
  raises, and a hook whose promise is rejected does not keep the \<open>break\<close> from happening.
\<close>

definition classify :: "Environment \<Rightarrow> jsval \<Rightarrow> World \<Rightarrow> (jserror + control) \<times> World" where
  "classify env result w =
     (case retryPolicy (resilient w) of
        None \<Rightarrow> succeed env result w
      | Some p \<Rightarrow>
          if canAbortIf p result then
            (if onAbort p then
               (case not_awaited (fst (call_hook env OnAbort w)) of
                  Some e \<Rightarrow> (Inl e, snd (call_hook env OnAbort w))
                | None \<Rightarrow> (Inr Break, snd (call_hook env OnAbort w)))
             else (Inl (TypeError ''this.retryPolicy.onAbort is not a function''), w))
          else if canRetryIf p result then (Inr Continue, w)
          else succeed env result w)"

text \<open>The \<open>try\<close> block: \<open>Inl\<close> is what it throws, \<open>Inr\<close> how it is left otherwise.\<close>

definition try_block :: "(nat \<Rightarrow> nat \<times> op_result) \<Rightarrow> Environment \<Rightarrow> World \<Rightarrow> ((jserror + control) \<times> World) option" where
  "try_block code env w =
     (case before_attempt env w of
        (Some e, w1) \<Rightarrow> Some (Inl e, w1)
      | (None, w1) \<Rightarrow>
          (case short_circuit w1 of
             Inl e \<Rightarrow> Some (Inl e, w1)
           | Inr w2 \<Rightarrow>
               (case invoke_and_race code (count_attempt w2) of
                  None \<Rightarrow> None
                | Some (Inl e, w3) \<Rightarrow> Some (Inl e, w3)
                | Some (Inr result, w3) \<Rightarrow> Some (classify env result w3))))"

text \<open>
  The \<open>catch\<close> block, entered with what was thrown: the error it raises itself, if any,
  and the world it leaves. Reading \<open>e.name\<close> can raise, and so can the \<open>onTimeout\<close> hook;
  either way the \<open>push\<close> is not reached.
\<close>

definition catch_block :: "Environment \<Rightarrow> jserror \<Rightarrow> World \<Rightarrow> jserror option \<times> World" where
  "catch_block env e w =
     (case read_name e of
        Inl te \<Rightarrow> (Some te, w)
      | Inr nm \<Rightarrow>
          (case (if nm = Some ''TimeoutError''
                 then await_hook env (onTimeout (resilient w)) OnTimeout w
                 else (None, w)) of
             (Some e', w1) \<Rightarrow> (Some e', w1)
           | (None, w1) \<Rightarrow>
               (None,
                w1\<lparr>executionContext :=
                     (executionContext w1)\<lparr>exceptions := exceptions (executionContext w1) @ [e]\<rparr>\<rparr>)))"

definition finally_block :: "World \<Rightarrow> World" where
  "finally_block w =
     w\<lparr>executionContext :=
         (executionContext w)
           \<lparr>elapsedTime :=
              (case startTime (executionContext w) of
                 None \<Rightarrow> NaN
               | Some t \<Rightarrow> Num (int (clock w) - int t))\<rparr>\<rparr>"

text \<open>
  One pass: the \<open>try\<close> block, the \<open>catch\<close> block if it threw, and the \<open>finally\<close> block in
  every case.
\<close>

definition loop_body :: "(nat \<Rightarrow> nat \<times> op_result) \<Rightarrow> Environment \<Rightarrow> World \<Rightarrow> (control \<times> World) option" where
  "loop_body code env w =
     (case try_block code env w of
        None \<Rightarrow> None
      | Some (Inl e, w1) \<Rightarrow>
          (case catch_block env e w1 of
             (None, w2) \<Rightarrow> Some (Continue, finally_block w2)
           | (Some e', w2) \<Rightarrow> Some (Throw e', finally_block w2))
      | Some (Inr c, w1) \<Rightarrow> Some (c, finally_block w1))"

subsection \<open>execute\<close>

text \<open>
  How the loop ends: by the \<open>return\<close> inside it, by the \<open>break\<close> of an abort, because
  \<open>shouldRetry\<close> says no, or by an error that the \<open>catch\<close> block raised.
\<close>

datatype loop_exit = Returned jsval | Aborted | Exhausted | Failed jserror

text \<open>
  The \<open>while\<close> loop, run for at most \<open>fuel\<close> passes. \<open>None\<close> means that the loop has not
  ended within these passes, or that a pass waits forever.
\<close>

fun loop :: "nat \<Rightarrow> (nat \<Rightarrow> nat \<times> op_result) \<Rightarrow> Environment \<Rightarrow> World \<Rightarrow> (loop_exit \<times> World) option" where
  "loop 0 code env w = (if shouldRetry w then None else Some (Exhausted, w))"
| "loop (Suc fuel) code env w =
     (if shouldRetry w then
        (case loop_body code env w of
           None \<Rightarrow> None
         | Some (Return v, w1) \<Rightarrow> Some (Returned v, w1)
         | Some (Break, w1) \<Rightarrow> Some (Aborted, w1)
         | Some (Continue, w1) \<Rightarrow> loop fuel code env w1
         | Some (Throw e, w1) \<Rightarrow> Some (Failed e, w1))
      else Some (Exhausted, w))"

text \<open>
  The code after the loop: \<open>Inl\<close> is an error raised to the caller of \<open>execute\<close>, by a
  hook or by the fallback.
\<close>

fun fallback_result :: "op_result \<Rightarrow> jserror + jsval" where
  "fallback_result (Returns v) = Inr v"
| "fallback_result (Throws e) = Inl e"
| "fallback_result (Raises e) = Inl e"

definition after_loop :: "Environment \<Rightarrow> World \<Rightarrow> (jserror + jsval) \<times> World" where
  "after_loop env w =
     (case await_hook env (onFailure (resilient w)) OnFailure w of
        (Some e, w1) \<Rightarrow> (Inl e, w1)
      | (None, w1) \<Rightarrow>
          (case await_hook env (onExit (resilient w1)) OnExit w1 of
             (Some e, w2) \<Rightarrow> (Inl e, w2)
           | (None, w2) \<Rightarrow>
               (case fallbackExecution (resilient w2) of
                  None \<Rightarrow> (Inr VUndefined, w2)
                | Some f \<Rightarrow>
                    (case await_hook env (onFallback (resilient w2)) OnFallback w2 of
                       (Some e, w3) \<Rightarrow> (Inl e, w3)
                     | (None, w3) \<Rightarrow>
                         (fallback_result f, w3\<lparr>trace := trace w3 @ [FallbackInvoked]\<rparr>)))))"

text \<open>
  The start of \<open>execute\<close> once the argument has passed the guard: a new context, and the
  \<open>onEntry\<close> hook.
\<close>

definition enter :: "Environment \<Rightarrow> World \<Rightarrow> jserror option \<times> World" where
  "enter env w =
     await_hook env (onEntry (resilient w)) OnEntry
       (w\<lparr>executionContext := new_ExecutionContext (guid env)\<rparr>)"

text \<open>
  \<open>Resilient.execute\<close>. The guard on the argument raises to the caller, and so does what
  is raised outside the \<open>try\<close> block.
\<close>

definition Resilient_execute :: "nat \<Rightarrow> Environment \<Rightarrow> World \<Rightarrow> ((jserror + jsval) \<times> World) option" where
  "Resilient_execute fuel env w =
     (case userCode env of
        None \<Rightarrow> Some (Inl (ArgumentError ''userCode''), w)
      | Some code \<Rightarrow>
          (case enter env w of
             (Some e, w1) \<Rightarrow> Some (Inl e, w1)
           | (None, w1) \<Rightarrow>
               (case loop fuel code env w1 of
                  None \<Rightarrow> None
                | Some (Returned v, w3) \<Rightarrow> Some (Inr v, w3)
                | Some (Aborted, w3) \<Rightarrow> Some (after_loop env w3)
                | Some (Exhausted, w3) \<Rightarrow> Some (after_loop env w3)
                | Some (Failed e, w3) \<Rightarrow> Some (Inl e, w3))))"

text \<open>
  The world in the middle of a run, after \<open>n\<close> passes through the loop each of which
  went on to the next; \<open>None\<close> when the loop ends or hangs before that.
\<close>

fun passes :: "nat \<Rightarrow> (nat \<Rightarrow> nat \<times> op_result) \<Rightarrow> Environment \<Rightarrow> World \<Rightarrow> World option" where
  "passes 0 code env w = Some w"
| "passes (Suc n) code env w =
     (if shouldRetry w then
        (case loop_body code env w of
           Some (Continue, w1) \<Rightarrow> passes n code env w1
         | _ \<Rightarrow> None)
      else None)"

section \<open>Observations\<close>

text \<open>How often a hook was called, with which contexts, and how often the operation was.\<close>

fun is_call_of :: "hook \<Rightarrow> event \<Rightarrow> bool" where
  "is_call_of h (HookCalled h' c) = (h' = h)"
| "is_call_of h _ = False"

definition hook_calls :: "hook \<Rightarrow> event list \<Rightarrow> nat" where
  "hook_calls h evs = length (filter (is_call_of h) evs)"

fun snapshot :: "event \<Rightarrow> ExecutionContext list" where
  "snapshot (HookCalled h c) = [c]"
| "snapshot _ = []"

definition snapshots :: "event list \<Rightarrow> ExecutionContext list" where
  "snapshots evs = concat (map snapshot evs)"

fun is_invocation :: "event \<Rightarrow> bool" where
  "is_invocation (Invoked k t) = True"
| "is_invocation _ = False"

definition invocations :: "event list \<Rightarrow> nat" where
  "invocations evs = length (filter is_invocation evs)"

text \<open>Everything an orchestrator is configured with, the breaker's state left aside.\<close>

definition config :: "Resilient \<Rightarrow> Resilient" where
  "config r = r\<lparr>circuitBreaker := None\<rparr>"

text \<open>
  How the race of attempt \<open>k\<close> ends for an orchestrator \<open>r\<close> and an operation \<open>code\<close>:
  the error it is rejected with, or the value it is fulfilled with.
\<close>

definition attempt_error :: "Resilient \<Rightarrow> (nat \<Rightarrow> nat \<times> op_result) \<Rightarrow> nat \<Rightarrow> jserror option" where
  "attempt_error r code k =
     (case Promise_race (promises r (code k)) of
        Some (t, Inl e) \<Rightarrow> Some e
      | _ \<Rightarrow> None)"

definition attempt_value :: "Resilient \<Rightarrow> (nat \<Rightarrow> nat \<times> op_result) \<Rightarrow> nat \<Rightarrow> jsval option" where
  "attempt_value r code k =
     (case Promise_race (promises r (code k)) of
        Some (t, Inr v) \<Rightarrow> Some v
      | _ \<Rightarrow> None)"

text \<open>
  Attempt \<open>k\<close> fails: its race is rejected with an error, or fulfilled with a value that
  the policy answers by another try.
\<close>

definition attempt_fails :: "Resilient \<Rightarrow> (nat \<Rightarrow> nat \<times> op_result) \<Rightarrow> nat \<Rightarrow> bool" where
  "attempt_fails r code k =
     (case Promise_race (promises r (code k)) of
        None \<Rightarrow> False
      | Some (t, Inl e) \<Rightarrow> True
      | Some (t, Inr v) \<Rightarrow>
          (case retryPolicy r of
             None \<Rightarrow> False
           | Some p \<Rightarrow> \<not> canAbortIf p v \<and> canRetryIf p v))"

text \<open>The invariant the spec states for the execution context.\<close>

definition within_attempts :: "ExecutionContext \<Rightarrow> bool" where
  "within_attempts c = (length (exceptions c) \<le> attempts c)"

section \<open>Operations and surroundings used in examples\<close>

text \<open>
  An operation that settles after \<open>d\<close> milliseconds, every time with the same outcome, and
  one that does so with the outcomes of a list, call by call, and with the last of them
  from then on.
\<close>

definition always :: "nat \<Rightarrow> op_result \<Rightarrow> nat \<Rightarrow> nat \<times> op_result" where
  "always d res k = (d, res)"

definition in_turn :: "nat \<Rightarrow> op_result list \<Rightarrow> op_result \<Rightarrow> nat \<Rightarrow> nat \<times> op_result" where
  "in_turn d outcomes final k = (d, if k - 1 < length outcomes then outcomes ! (k - 1) else final)"

definition surroundings :: "(nat \<Rightarrow> nat \<times> op_result) \<Rightarrow> Environment" where
  "surroundings code =
     \<lparr>userCode = Some code, guid = ''0'', mathRandom = (\<lambda>i. 0), hookCode = (\<lambda>h c. Done)\<rparr>"

text \<open>
  A hook can raise the error \<open>e\<close> at some call, and every hook returns normally.
\<close>

definition raised_by :: "Environment \<Rightarrow> hook \<Rightarrow> jserror \<Rightarrow> bool" where
  "raised_by env h e = (\<exists>c. awaited (hookCode env h c) = Some e)"


definition quiet :: "Environment \<Rightarrow> bool" where
  "quiet env = (\<forall>h c. hookCode env h c = Done)"

text \<open>A breaker that \<open>open()\<close> was called on at time 0, its reset timeout being 5000.\<close>

definition opened_breaker :: CircuitBreaker where
  "opened_breaker =
     new_CircuitBreaker\<lparr>resetTimeout := 5000, state := Open, timerId := Some 5000,
       openTimestamp := Some 0\<rparr>"

text \<open>Two calls of \<open>execute\<close> in a row on the same orchestrator, the second as soon as
  the first has ended.\<close>

definition execute_twice :: "nat \<Rightarrow> Environment \<Rightarrow> World \<Rightarrow> ((jserror + jsval) \<times> World) option" where
  "execute_twice fuel env w =
     (case Resilient_execute fuel env w of
        None \<Rightarrow> None
      | Some (res, w1) \<Rightarrow> Resilient_execute fuel env w1)"

section \<open>Facts about one pass through the loop\<close>

subsection \<open>Observations of an extended trace\<close>

lemma hook_calls_append [simp]:
  "hook_calls h (xs @ ys) = hook_calls h xs + hook_calls h ys"
  by (simp add: hook_calls_def)

lemma hook_calls_simps [simp]:
  "hook_calls h [] = 0"
  "hook_calls h (HookCalled h' c # evs) = (if h' = h then 1 else 0) + hook_calls h evs"
  "hook_calls h (Invoked k t # evs) = hook_calls h evs"
  "hook_calls h (Waited d # evs) = hook_calls h evs"
  "hook_calls h (FallbackInvoked # evs) = hook_calls h evs"
  by (simp_all add: hook_calls_def)

lemma snapshots_append [simp]: "snapshots (xs @ ys) = snapshots xs @ snapshots ys"
  by (simp add: snapshots_def)

lemma snapshots_simps [simp]:
  "snapshots [] = []"
  "snapshots (HookCalled h c # evs) = c # snapshots evs"
  "snapshots (Invoked k t # evs) = snapshots evs"
  "snapshots (Waited d # evs) = snapshots evs"
  "snapshots (FallbackInvoked # evs) = snapshots evs"
  by (simp_all add: snapshots_def)

lemma invocations_append [simp]:
  "invocations (xs @ ys) = invocations xs + invocations ys"
  by (simp add: invocations_def)

lemma invocations_simps [simp]:
  "invocations [] = 0"
  "invocations (HookCalled h c # evs) = invocations evs"
  "invocations (Invoked k t # evs) = Suc (invocations evs)"
  "invocations (Waited d # evs) = invocations evs"
  "invocations (FallbackInvoked # evs) = invocations evs"
  by (simp_all add: invocations_def)

subsection \<open>What stays the same\<close>

lemma config_fields:
  assumes "config r' = config r"
  shows "retryPolicy r' = retryPolicy r" "fallbackExecution r' = fallbackExecution r"
    "timeout r' = timeout r" "rateLimit r' = rateLimit r" "onEntry r' = onEntry r"
    "onExit r' = onExit r" "onFailure r' = onFailure r" "onFallback r' = onFallback r"
    "onSuccess r' = onSuccess r" "onTimeout r' = onTimeout r"
proof -
  have "retryPolicy (config r') = retryPolicy (config r)"
    "fallbackExecution (config r') = fallbackExecution (config r)"
    "timeout (config r') = timeout (config r)" "rateLimit (config r') = rateLimit (config r)"
    "onEntry (config r') = onEntry (config r)" "onExit (config r') = onExit (config r)"
    "onFailure (config r') = onFailure (config r)"
    "onFallback (config r') = onFallback (config r)"
    "onSuccess (config r') = onSuccess (config r)"
    "onTimeout (config r') = onTimeout (config r)"
    using assms by simp_all
  then show "retryPolicy r' = retryPolicy r" "fallbackExecution r' = fallbackExecution r"
    "timeout r' = timeout r" "rateLimit r' = rateLimit r" "onEntry r' = onEntry r"
    "onExit r' = onExit r" "onFailure r' = onFailure r" "onFallback r' = onFallback r"
    "onSuccess r' = onSuccess r" "onTimeout r' = onTimeout r"
    by (simp_all add: config_def)
qed

lemma config_breaker [simp]: "config (r\<lparr>circuitBreaker := b\<rparr>) = config r"
  by (simp add: config_def)

lemma promises_config:
  assumes "config r' = config r"
  shows "promises r' = promises r"
  using config_fields(3,4) [OF assms] by (intro ext) (simp add: promises_def throttled_def)

lemma advance_frame [simp]:
  "executionContext (advance d w) = executionContext w"
  "trace (advance d w) = trace w"
  "draws (advance d w) = draws w"
  "clock (advance d w) = clock w + d"
  "config (resilient (advance d w)) = config (resilient w)"
  by (simp_all add: advance_def Let_def)

lemma advance_no_breaker:
  "circuitBreaker (resilient w) = None \<Longrightarrow> circuitBreaker (resilient (advance d w)) = None"
  by (simp add: advance_def Let_def)

lemma call_hook_frame [simp]:
  "fst (call_hook env h w) = hookCode env h (executionContext w)"
  "executionContext (snd (call_hook env h w)) = executionContext w"
  "trace (snd (call_hook env h w)) = trace w @ [HookCalled h (executionContext w)]"
  "resilient (snd (call_hook env h w)) = resilient w"
  "clock (snd (call_hook env h w)) = clock w"
  by (simp_all add: call_hook_def)

lemma await_hook_frame [simp]:
  "fst (await_hook env b h w) = (if b then awaited (hookCode env h (executionContext w)) else None)"
  "executionContext (snd (await_hook env b h w)) = executionContext w"
  "resilient (snd (await_hook env b h w)) = resilient w"
  "clock (snd (await_hook env b h w)) = clock w"
  "trace (snd (await_hook env b h w))
     = trace w @ (if b then [HookCalled h (executionContext w)] else [])"
  by (simp_all add: await_hook_def)

lemma await_hook_absent [simp]: "await_hook env False h w = (None, w)"
  by (simp add: await_hook_def)

lemma not_awaited_awaited: "not_awaited r = Some e \<Longrightarrow> awaited r = Some e"
  by (cases r) simp_all

lemma raised_byI: "awaited (hookCode env h c) = Some e \<Longrightarrow> raised_by env h e"
  by (auto simp: raised_by_def)

lemma quiet_awaited [simp]: "quiet env \<Longrightarrow> awaited (hookCode env h c) = None"
  by (simp add: quiet_def)

lemma quiet_not_awaited [simp]: "quiet env \<Longrightarrow> not_awaited (hookCode env h c) = None"
  by (simp add: quiet_def)

lemma quiet_raised_by [simp]: "quiet env \<Longrightarrow> \<not> raised_by env h e"
  by (simp add: raised_by_def)

lemma wait_frame [simp]:
  "executionContext (wait env p w) = executionContext w"
  "config (resilient (wait env p w)) = config (resilient w)"
  "trace (wait env p w) =
     trace w @ [Waited (nat \<lfloor>wait_delay p (attempts (executionContext w))
                                 (mathRandom env (draws w))\<rfloor>)]"
  by (simp_all add: wait_def Let_def)

lemma wait_no_breaker:
  "circuitBreaker (resilient w) = None \<Longrightarrow> circuitBreaker (resilient (wait env p w)) = None"
  by (simp add: wait_def Let_def advance_no_breaker)

subsection \<open>The stages of a pass\<close>

lemma before_attempt_first:
  "attempts (executionContext w) = 0 \<Longrightarrow>
     before_attempt env w =
       (None, w\<lparr>executionContext := (executionContext w)\<lparr>startTime := Some (clock w)\<rparr>\<rparr>)"
  by (simp add: before_attempt_def)

lemma before_attempt_frame:
  "attempts (executionContext (snd (before_attempt env w))) = attempts (executionContext w)"
  "exceptions (executionContext (snd (before_attempt env w))) = exceptions (executionContext w)"
  "config (resilient (snd (before_attempt env w))) = config (resilient w)"
  "circuitBreaker (resilient w) = None \<longrightarrow>
     circuitBreaker (resilient (snd (before_attempt env w))) = None"
  "invocations (trace (snd (before_attempt env w))) = invocations (trace w)"
  "h \<noteq> OnRetry \<longrightarrow> hook_calls h (trace (snd (before_attempt env w))) = hook_calls h (trace w)"
  "set (snapshots (trace (snd (before_attempt env w))))
     \<subseteq> set (snapshots (trace w)) \<union> {executionContext w}"
  by (auto simp: before_attempt_def wait_no_breaker split: option.splits)

text \<open>What the start of the \<open>try\<close> block can raise.\<close>

lemma before_attempt_raises:
  assumes "fst (before_attempt env w) = Some e"
  shows "0 < attempts (executionContext w)
       \<and> ((retryPolicy (resilient w) = None \<and> e = TypeError ''retryPolicy is undefined'')
          \<or> (\<exists>p. retryPolicy (resilient w) = Some p \<and> onRetry p \<and> raised_by env OnRetry e))"
  using assms
  by (auto simp: before_attempt_def split: option.splits if_splits intro: raised_byI)

lemma short_circuit_none:
  "circuitBreaker (resilient w) = None \<Longrightarrow> short_circuit w = Inr w"
  by (simp add: short_circuit_def)

lemma transitionTo_member: "\<exists>cb'. transitionTo cb (Some s) now = Inr cb'"
  by (simp add: transitionTo_def Let_def)

lemma CircuitBreaker_execute_Inl:
  "CircuitBreaker_execute cb now = Inl e \<Longrightarrow> e = OpenCircuitError \<and> state cb = Open"
  using transitionTo_member [of "cb\<lparr>cbAttempts := jsnum_inc (cbAttempts cb)\<rparr>" Open now]
  by (auto simp: CircuitBreaker_execute_def CircuitState_Isolate_def Let_def split: if_splits)

lemma short_circuit_Inl:
  "short_circuit w = Inl e \<Longrightarrow>
     e = OpenCircuitError \<and> (\<exists>cb. circuitBreaker (resilient w) = Some cb \<and> state cb = Open)"
  by (auto simp: short_circuit_def split: option.splits sum.splits
      dest: CircuitBreaker_execute_Inl)

lemma short_circuit_Inr:
  assumes "short_circuit w = Inr w2"
  shows "executionContext w2 = executionContext w" and "trace w2 = trace w"
    and "clock w2 = clock w" and "config (resilient w2) = config (resilient w)"
    and "circuitBreaker (resilient w) = None \<longrightarrow> w2 = w"
  using assms by (auto simp: short_circuit_def split: option.splits sum.splits)

lemma count_attempt_frame [simp]:
  "attempts (executionContext (count_attempt w)) = attempts (executionContext w) + 1"
  "exceptions (executionContext (count_attempt w)) = exceptions (executionContext w)"
  "trace (count_attempt w) = trace w"
  "resilient (count_attempt w) = resilient w"
  "clock (count_attempt w) = clock w"
  by (simp_all add: count_attempt_def)

lemma throttle_first_call: "fst (throttle_call l new_Throttle now) = True"
  by (simp add: throttle_call_def new_Throttle_def)

lemma invoke_and_race_None:
  "(invoke_and_race code w = None) =
     (Promise_race (promises (resilient w) (code (attempts (executionContext w)))) = None)"
  by (simp add: invoke_and_race_def Let_def split: option.splits)

lemma invoke_and_race_Some:
  assumes "invoke_and_race code w = Some (x, w')"
  shows "executionContext w' = executionContext w"
    and "config (resilient w') = config (resilient w)"
    and "circuitBreaker (resilient w) = None \<longrightarrow> circuitBreaker (resilient w') = None"
    and "trace w' = trace w @ [Invoked (attempts (executionContext w)) (clock w)]"
    and "\<exists>t. Promise_race (promises (resilient w) (code (attempts (executionContext w))))
               = Some (t, x)"
  using assms
  by (auto simp: invoke_and_race_def Let_def throttle_first_call advance_no_breaker
      split: option.splits)

lemma CircuitBreaker_close_Inr: "\<exists>cb'. CircuitBreaker_close cb now = Inr cb'"
  by (simp add: CircuitBreaker_close_def transitionTo_member)

lemma close_breaker_Inr: "\<exists>w'. close_breaker w = Inr w'"
  using CircuitBreaker_close_Inr [of "the (circuitBreaker (resilient w))" "clock w"]
  by (auto simp: close_breaker_def split: option.splits)

lemma close_breaker_frame:
  assumes "close_breaker w = Inr w'"
  shows "executionContext w' = executionContext w" and "trace w' = trace w"
    and "clock w' = clock w" and "config (resilient w') = config (resilient w)"
    and "circuitBreaker (resilient w) = None \<longrightarrow> w' = w"
  using assms by (auto simp: close_breaker_def split: option.splits sum.splits)

lemma CircuitBreaker_close_not_Inl [simp]: "CircuitBreaker_close cb now \<noteq> Inl e"
  using CircuitBreaker_close_Inr [of cb now] by auto

lemma succeed_cases:
  assumes "succeed env result w = (y, w')"
  shows "executionContext w' = executionContext w"
    and "config (resilient w') = config (resilient w)"
    and "circuitBreaker (resilient w) = None \<longrightarrow> circuitBreaker (resilient w') = None"
    and "invocations (trace w') = invocations (trace w)"
    and "h \<noteq> OnSuccess \<longrightarrow> h \<noteq> OnExit \<longrightarrow> hook_calls h (trace w') = hook_calls h (trace w)"
    and "set (snapshots (trace w')) \<subseteq> set (snapshots (trace w)) \<union> {executionContext w}"
    and "y = Inr (Return result)
         \<or> (\<exists>e. y = Inl e \<and> (raised_by env OnSuccess e \<or> raised_by env OnExit e))"
  using assms
  by (auto simp: succeed_def close_breaker_def await_hook_def call_hook_def
      split: prod.splits option.splits sum.splits if_splits intro: raised_byI)

lemma succeed_quiet:
  assumes "quiet env"
  shows "fst (succeed env result w) = Inr (Return result)"
  using assms succeed_cases(7) [of env result w "fst (succeed env result w)"
      "snd (succeed env result w)"]
  by auto

lemma classify_frame:
  assumes "classify env result w = (y, w')"
  shows "executionContext w' = executionContext w"
    and "config (resilient w') = config (resilient w)"
    and "circuitBreaker (resilient w) = None \<longrightarrow> circuitBreaker (resilient w') = None"
    and "invocations (trace w') = invocations (trace w)"
    and "hook_calls OnTimeout (trace w') = hook_calls OnTimeout (trace w)"
    and "hook_calls OnThrottled (trace w') = hook_calls OnThrottled (trace w)"
    and "hook_calls OnRetry (trace w') = hook_calls OnRetry (trace w)"
    and "set (snapshots (trace w')) \<subseteq> set (snapshots (trace w)) \<union> {executionContext w}"
proof -
  obtain y' w'' where s: "succeed env result w = (y', w'')" by (cases "succeed env result w")
  note f = succeed_cases [OF s]
  have or: "(y, w') = (y', w'') \<or> w' = snd (call_hook env OnAbort w) \<or> w' = w"
    using assms s by (auto simp: classify_def split: option.splits if_splits)
  from or f(1) show "executionContext w' = executionContext w" by auto
  from or f(2) show "config (resilient w') = config (resilient w)" by auto
  from or f(3) show "circuitBreaker (resilient w) = None \<longrightarrow> circuitBreaker (resilient w') = None"
    by auto
  from or f(4) show "invocations (trace w') = invocations (trace w)" by auto
  from or f(5) [of OnTimeout]
  show "hook_calls OnTimeout (trace w') = hook_calls OnTimeout (trace w)" by auto
  from or f(5) [of OnThrottled]
  show "hook_calls OnThrottled (trace w') = hook_calls OnThrottled (trace w)" by auto
  from or f(5) [of OnRetry]
  show "hook_calls OnRetry (trace w') = hook_calls OnRetry (trace w)" by auto
  from or f(6)
  show "set (snapshots (trace w')) \<subseteq> set (snapshots (trace w)) \<union> {executionContext w}"
    by auto
qed

text \<open>The ways a settled result is classified.\<close>

lemma classify_cases:
  assumes "classify env result w = (y, w')"
  shows "(y = Inr Break
            \<and> (\<exists>p. retryPolicy (resilient w) = Some p \<and> canAbortIf p result \<and> onAbort p)
            \<and> not_awaited (hookCode env OnAbort (executionContext w)) = None
            \<and> hook_calls OnAbort (trace w') = hook_calls OnAbort (trace w) + 1)
       \<or> ((\<exists>e. y = Inl e \<and> raised_by env OnAbort e)
            \<and> (\<exists>p. retryPolicy (resilient w) = Some p \<and> canAbortIf p result \<and> onAbort p)
            \<and> hook_calls OnAbort (trace w') = hook_calls OnAbort (trace w) + 1)
       \<or> ((\<exists>m. y = Inl (TypeError m))
            \<and> (\<exists>p. retryPolicy (resilient w) = Some p \<and> canAbortIf p result \<and> \<not> onAbort p)
            \<and> hook_calls OnAbort (trace w') = hook_calls OnAbort (trace w))
       \<or> (y = Inr Continue
            \<and> (\<exists>p. retryPolicy (resilient w) = Some p \<and> \<not> canAbortIf p result
                    \<and> canRetryIf p result)
            \<and> hook_calls OnAbort (trace w') = hook_calls OnAbort (trace w))
       \<or> ((y = Inr (Return result)
             \<or> (\<exists>e. y = Inl e \<and> (raised_by env OnSuccess e \<or> raised_by env OnExit e)))
            \<and> (\<forall>p. retryPolicy (resilient w) = Some p \<longrightarrow>
                    \<not> canAbortIf p result \<and> \<not> canRetryIf p result)
            \<and> hook_calls OnAbort (trace w') = hook_calls OnAbort (trace w))"
proof -
  obtain y' w'' where s: "succeed env result w = (y', w'')" by (cases "succeed env result w")
  note f = succeed_cases(7) [OF s] succeed_cases(5) [OF s, of OnAbort]
  show ?thesis
  proof (cases "retryPolicy (resilient w)")
    case None
    then show ?thesis using assms s f by (simp add: classify_def)
  next
    case (Some p)
    show ?thesis
    proof (cases "canAbortIf p result")
      case True
      show ?thesis
      proof (cases "onAbort p")
        case False
        then show ?thesis using assms Some True by (auto simp: classify_def)
      next
        case hook: True
        show ?thesis
        proof (cases "not_awaited (hookCode env OnAbort (executionContext w))")
          case None
          then show ?thesis using assms Some True hook by (auto simp: classify_def)
        next
          case (Some e)
          then have "raised_by env OnAbort e"
            using not_awaited_awaited raised_byI by blast
          then show ?thesis
            using assms \<open>retryPolicy (resilient w) = Some p\<close> True hook Some
            by (auto simp: classify_def)
        qed
      qed
    next
      case False
      then show ?thesis using assms Some s f by (auto simp: classify_def split: if_splits)
    qed
  qed
qed

lemma read_name_cases:
  "((e = Thrown VUndefined \<or> e = Thrown VNull) \<and> (\<exists>m. read_name e = Inl (TypeError m)))
   \<or> (e \<noteq> Thrown VUndefined \<and> e \<noteq> Thrown VNull \<and> read_name e = Inr (error_name e))"
proof (cases e)
  case (Thrown v)
  then show ?thesis by (cases v) simp_all
qed simp_all

lemma read_name_named: "error_name e = Some n \<Longrightarrow> read_name e = Inr (Some n)"
  by (cases e) simp_all

lemma catch_block_frame:
  assumes "catch_block env e w = (r, w')"
  shows "attempts (executionContext w') = attempts (executionContext w)"
    and "resilient w' = resilient w"
    and "invocations (trace w') = invocations (trace w)"
    and "h \<noteq> OnTimeout \<longrightarrow> hook_calls h (trace w') = hook_calls h (trace w)"
    and "set (snapshots (trace w')) \<subseteq> set (snapshots (trace w)) \<union> {executionContext w}"
    and "exceptions (executionContext w')
           = exceptions (executionContext w) @ (if r = None then [e] else [])"
  using assms
  by (auto simp: catch_block_def await_hook_def call_hook_def
      split: sum.splits option.splits prod.splits if_splits)

text \<open>The ways the \<open>catch\<close> block can go.\<close>

lemma catch_block_cases:
  assumes "catch_block env e w = (r, w')"
  shows "((e = Thrown VUndefined \<or> e = Thrown VNull) \<and> (\<exists>m. r = Some (TypeError m))
            \<and> hook_calls OnTimeout (trace w') = hook_calls OnTimeout (trace w))
       \<or> (e \<noteq> Thrown VUndefined \<and> e \<noteq> Thrown VNull
            \<and> hook_calls OnTimeout (trace w')
                = hook_calls OnTimeout (trace w)
                  + (if error_name e = Some ''TimeoutError'' \<and> onTimeout (resilient w)
                     then 1 else 0)
            \<and> r = (if error_name e = Some ''TimeoutError'' \<and> onTimeout (resilient w)
                   then awaited (hookCode env OnTimeout (executionContext w)) else None))"
  using assms read_name_cases [of e]
  by (auto simp: catch_block_def await_hook_def call_hook_def
      split: sum.splits option.splits prod.splits if_splits)

lemma finally_block_frame [simp]:
  "attempts (executionContext (finally_block w)) = attempts (executionContext w)"
  "exceptions (executionContext (finally_block w)) = exceptions (executionContext w)"
  "resilient (finally_block w) = resilient w"
  "trace (finally_block w) = trace w"
  by (simp_all add: finally_block_def)

lemma attempt_error_race:
  "Promise_race (promises r (code k)) = Some (t, Inl e) \<Longrightarrow> attempt_error r code k = Some e"
  by (simp add: attempt_error_def)

lemma attempt_value_race:
  "Promise_race (promises r (code k)) = Some (t, Inr v) \<Longrightarrow> attempt_value r code k = Some v"
  by (simp add: attempt_value_def)

text \<open>The stages at which the \<open>try\<close> block can end.\<close>

lemma try_anatomy [consumes 1, case_names early rejected failed settled]:
  assumes "try_block code env w = Some (y, w1)"
  obtains (early) e where "before_attempt env w = (Some e, w1)" "y = Inl e"
  | (rejected) e where "before_attempt env w = (None, w1)" "short_circuit w1 = Inl e"
      "y = Inl e"
  | (failed) u w2 e where "before_attempt env w = (None, u)" "short_circuit u = Inr w2"
      "invoke_and_race code (count_attempt w2) = Some (Inl e, w1)" "y = Inl e"
  | (settled) u w2 v w3 where "before_attempt env w = (None, u)" "short_circuit u = Inr w2"
      "invoke_and_race code (count_attempt w2) = Some (Inr v, w3)"
      "classify env v w3 = (y, w1)"
  using assms
  by (auto simp: try_block_def split: prod.splits option.splits sum.splits)

lemma before_attempt_eq:
  assumes "before_attempt env w = (r, u)"
  shows "attempts (executionContext u) = attempts (executionContext w)"
    and "exceptions (executionContext u) = exceptions (executionContext w)"
    and "config (resilient u) = config (resilient w)"
    and "circuitBreaker (resilient w) = None \<longrightarrow> circuitBreaker (resilient u) = None"
    and "invocations (trace u) = invocations (trace w)"
    and "h \<noteq> OnRetry \<longrightarrow> hook_calls h (trace u) = hook_calls h (trace w)"
    and "set (snapshots (trace u)) \<subseteq> set (snapshots (trace w)) \<union> {executionContext w}"
  using before_attempt_frame [where env = env and w = w] assms by simp_all

text \<open>What the \<open>try\<close> block leaves untouched, however it ends.\<close>

lemma try_frame:
  assumes "try_block code env w = Some (y, w1)"
  shows "exceptions (executionContext w1) = exceptions (executionContext w)"
    and "config (resilient w1) = config (resilient w)"
    and "circuitBreaker (resilient w) = None \<longrightarrow> circuitBreaker (resilient w1) = None"
    and "hook_calls OnThrottled (trace w1) = hook_calls OnThrottled (trace w)"
    and "hook_calls OnTimeout (trace w1) = hook_calls OnTimeout (trace w)"
    and "set (snapshots (trace w1)) \<subseteq> set (snapshots (trace w))
           \<union> {s. exceptions s = exceptions (executionContext w)
                  \<and> attempts (executionContext w) \<le> attempts s}"
    and "attempts (executionContext w) \<le> attempts (executionContext w1)"
    and "invocations (trace w1) + attempts (executionContext w)
           = invocations (trace w) + attempts (executionContext w1)"
    and "attempts (executionContext w1) \<le> attempts (executionContext w) + 1"
proof -
  let ?A = "attempts (executionContext w)" and ?X = "exceptions (executionContext w)"
  let ?S = "set (snapshots (trace w)) \<union> {s. exceptions s = ?X \<and> ?A \<le> attempts s}"
  have all: "exceptions (executionContext w1) = ?X
      \<and> config (resilient w1) = config (resilient w)
      \<and> (circuitBreaker (resilient w) = None \<longrightarrow> circuitBreaker (resilient w1) = None)
      \<and> hook_calls OnThrottled (trace w1) = hook_calls OnThrottled (trace w)
      \<and> hook_calls OnTimeout (trace w1) = hook_calls OnTimeout (trace w)
      \<and> set (snapshots (trace w1)) \<subseteq> ?S
      \<and> ?A \<le> attempts (executionContext w1)
      \<and> invocations (trace w1) + ?A = invocations (trace w) + attempts (executionContext w1)
      \<and> attempts (executionContext w1) \<le> ?A + 1"
    using assms
  proof (cases rule: try_anatomy)
    case (early e)
    note b = before_attempt_eq [OF early(1)]
    show ?thesis using b(1-5) b(6) [of OnThrottled] b(6) [of OnTimeout] b(7) by auto
  next
    case (rejected e)
    note b = before_attempt_eq [OF rejected(1)]
    show ?thesis using b(1-5) b(6) [of OnThrottled] b(6) [of OnTimeout] b(7) by auto
  next
    case (failed u w2 e)
    note b = before_attempt_eq [OF failed(1)]
    note sc = short_circuit_Inr [OF failed(2)]
    note iv = invoke_and_race_Some [OF failed(3)]
    have "set (snapshots (trace w1)) \<subseteq> ?S" using b(7) sc(2) iv(4) by auto
    moreover have "circuitBreaker (resilient w) = None \<longrightarrow> circuitBreaker (resilient w1) = None"
      using iv(3) sc(5) b(4) by auto
    ultimately show ?thesis
      using b(1-3,5) b(6) [of OnThrottled] b(6) [of OnTimeout] sc(1,2,4) iv(1,2,4) by simp
  next
    case (settled u w2 v w3)
    note b = before_attempt_eq [OF settled(1)]
    note sc = short_circuit_Inr [OF settled(2)]
    note iv = invoke_and_race_Some [OF settled(3)]
    note cf = classify_frame [OF settled(4)]
    have e3: "exceptions (executionContext w3) = ?X" "attempts (executionContext w3) = ?A + 1"
      using iv(1) sc(1) b(1,2) by simp_all
    have "set (snapshots (trace w3)) \<subseteq> ?S" using b(7) sc(2) iv(4) by auto
    then have "set (snapshots (trace w1)) \<subseteq> ?S" using cf(8) e3 by auto
    moreover have "circuitBreaker (resilient w) = None \<longrightarrow> circuitBreaker (resilient w1) = None"
      using cf(3) iv(3) sc(5) b(4) by auto
    ultimately show ?thesis
      using b(3,5) b(6) [of OnThrottled] b(6) [of OnTimeout] sc(2,4) iv(2,4) cf(1,2,4,5,6) e3
      by simp
  qed
  from all show "exceptions (executionContext w1) = exceptions (executionContext w)"
    and "config (resilient w1) = config (resilient w)"
    and "circuitBreaker (resilient w) = None \<longrightarrow> circuitBreaker (resilient w1) = None"
    and "hook_calls OnThrottled (trace w1) = hook_calls OnThrottled (trace w)"
    and "hook_calls OnTimeout (trace w1) = hook_calls OnTimeout (trace w)"
    and "set (snapshots (trace w1)) \<subseteq> ?S"
    and "attempts (executionContext w) \<le> attempts (executionContext w1)"
    and "invocations (trace w1) + attempts (executionContext w)
           = invocations (trace w) + attempts (executionContext w1)"
    and "attempts (executionContext w1) \<le> attempts (executionContext w) + 1"
    by simp_all
qed

lemma race_of_pass:
  assumes "before_attempt env w = (None, u)" "short_circuit u = Inr w2"
    and "invoke_and_race code (count_attempt w2) = Some (x, w3)"
  shows "\<exists>t. Promise_race (promises (resilient w) (code (attempts (executionContext w) + 1)))
               = Some (t, x)"
    and "attempts (executionContext w3) = attempts (executionContext w) + 1"
    and "exceptions (executionContext w3) = exceptions (executionContext w)"
    and "config (resilient w3) = config (resilient w)"
    and "invocations (trace w3) = invocations (trace w) + 1"
    and "h \<noteq> OnRetry \<longrightarrow> hook_calls h (trace w3) = hook_calls h (trace w)"
proof -
  note b = before_attempt_eq [OF assms(1)]
  note sc = short_circuit_Inr [OF assms(2)]
  note iv = invoke_and_race_Some [OF assms(3)]
  have c2: "config (resilient w2) = config (resilient w)" using sc(4) b(3) by simp
  show "\<exists>t. Promise_race (promises (resilient w) (code (attempts (executionContext w) + 1)))
               = Some (t, x)"
    using iv(5) promises_config [OF c2] sc(1) b(1) by auto
  show "attempts (executionContext w3) = attempts (executionContext w) + 1"
    and "exceptions (executionContext w3) = exceptions (executionContext w)"
    using iv(1) sc(1) b(1,2) by simp_all
  show "config (resilient w3) = config (resilient w)" using iv(2) c2 by simp
  show "invocations (trace w3) = invocations (trace w) + 1" using iv(4) sc(2) b(5) by simp
  show "h \<noteq> OnRetry \<longrightarrow> hook_calls h (trace w3) = hook_calls h (trace w)"
    using iv(4) sc(2) b(6) [of h] by simp
qed

text \<open>
  How the \<open>try\<close> block can end: before the attempt is counted, with an error of the
  breaker, of the missing policy or of the \<open>onRetry\<close> hook; or after it, with the error
  the race is rejected with, or with what becomes of the value it is fulfilled with.
\<close>

lemma try_kinds:
  assumes "try_block code env w = Some (y, w1)"
  shows "(attempts (executionContext w1) = attempts (executionContext w)
          \<and> hook_calls OnAbort (trace w1) = hook_calls OnAbort (trace w)
          \<and> (\<exists>e. y = Inl e
                \<and> ((e = OpenCircuitError \<and> (\<exists>cb. circuitBreaker (resilient w) = Some cb)
                       \<and> (\<exists>cb. circuitBreaker (resilient w1) = Some cb \<and> state cb = Open)
                       \<and> before_attempt env w = (None, w1))
                     \<or> (retryPolicy (resilient w) = None \<and> 0 < attempts (executionContext w)
                         \<and> (\<exists>m. e = TypeError m))
                     \<or> (0 < attempts (executionContext w)
                         \<and> (\<exists>p. retryPolicy (resilient w) = Some p \<and> onRetry p)
                         \<and> raised_by env OnRetry e))))
       \<or> (attempts (executionContext w1) = attempts (executionContext w) + 1
          \<and> ((\<exists>e. attempt_error (resilient w) code (attempts (executionContext w) + 1) = Some e
                  \<and> y = Inl e
                  \<and> hook_calls OnAbort (trace w1) = hook_calls OnAbort (trace w))
             \<or> (\<exists>v. attempt_value (resilient w) code (attempts (executionContext w) + 1) = Some v
                  \<and> ((y = Inr Break
                        \<and> hook_calls OnAbort (trace w1) = hook_calls OnAbort (trace w) + 1
                        \<and> (\<exists>p. retryPolicy (resilient w) = Some p \<and> canAbortIf p v
                                \<and> onAbort p))
                     \<or> ((\<exists>e. y = Inl e \<and> raised_by env OnAbort e)
                        \<and> hook_calls OnAbort (trace w1) = hook_calls OnAbort (trace w) + 1
                        \<and> (\<exists>p. retryPolicy (resilient w) = Some p \<and> canAbortIf p v
                                \<and> onAbort p))
                     \<or> ((\<exists>m. y = Inl (TypeError m))
                        \<and> hook_calls OnAbort (trace w1) = hook_calls OnAbort (trace w)
                        \<and> (\<exists>p. retryPolicy (resilient w) = Some p \<and> canAbortIf p v
                                \<and> \<not> onAbort p))
                     \<or> (y = Inr Continue
                        \<and> hook_calls OnAbort (trace w1) = hook_calls OnAbort (trace w)
                        \<and> (\<exists>p. retryPolicy (resilient w) = Some p \<and> \<not> canAbortIf p v
                                \<and> canRetryIf p v))
                     \<or> ((y = Inr (Return v)
                          \<or> (\<exists>e. y = Inl e
                                \<and> (raised_by env OnSuccess e \<or> raised_by env OnExit e)))
                        \<and> hook_calls OnAbort (trace w1) = hook_calls OnAbort (trace w)
                        \<and> (\<forall>p. retryPolicy (resilient w) = Some p \<longrightarrow>
                                \<not> canAbortIf p v \<and> \<not> canRetryIf p v))))))"
  using assms
proof (cases rule: try_anatomy)
  case (early e)
  note b = before_attempt_eq [OF early(1)]
  have "fst (before_attempt env w) = Some e" using early(1) by simp
  note r = before_attempt_raises [OF this]
  show ?thesis using early(2) b(1) b(6) [of OnAbort] r by auto
next
  case (rejected e)
  note b = before_attempt_eq [OF rejected(1)]
  have e: "e = OpenCircuitError"
    "\<exists>cb. circuitBreaker (resilient w1) = Some cb \<and> state cb = Open"
    using short_circuit_Inl [OF rejected(2)] by auto
  have "\<exists>cb. circuitBreaker (resilient w) = Some cb"
    using e(2) b(4) by (cases "circuitBreaker (resilient w)") auto
  then show ?thesis
    using rejected(1,3) e b(1) b(6) [of OnAbort] by simp
next
  case (failed u w2 e)
  note r = race_of_pass [OF failed(1,2,3)]
  have "attempt_error (resilient w) code (attempts (executionContext w) + 1) = Some e"
    using r(1) by (auto simp: attempt_error_race)
  then show ?thesis using failed(4) r(2) r(6) [of OnAbort] by simp
next
  case (settled u w2 v w3)
  note r = race_of_pass [OF settled(1,2,3)]
  note cf = classify_frame [OF settled(4)]
  have val: "attempt_value (resilient w) code (attempts (executionContext w) + 1) = Some v"
    using r(1) by (auto simp: attempt_value_race)
  have pol: "retryPolicy (resilient w3) = retryPolicy (resilient w)"
    using config_fields(1) [OF r(4)] .
  have a: "attempts (executionContext w1) = attempts (executionContext w) + 1"
    using cf(1) r(2) by simp
  have h3: "hook_calls OnAbort (trace w3) = hook_calls OnAbort (trace w)"
    using r(6) [of OnAbort] by simp
  show ?thesis
    using classify_cases [OF settled(4)] unfolding pol h3
    by (intro disjI2 conjI a) (use val in auto)
qed

text \<open>A pass ends in the \<open>catch\<close> block or leaves the \<open>try\<close> block by itself.\<close>

lemma pass_anatomy [consumes 1, case_names caught left]:
  assumes "loop_body code env w = Some (c, w')"
  obtains (caught) e w1 r w2 where "try_block code env w = Some (Inl e, w1)"
      "catch_block env e w1 = (r, w2)" "w' = finally_block w2"
      "c = (case r of None \<Rightarrow> Continue | Some e' \<Rightarrow> Throw e')"
  | (left) w1 where "try_block code env w = Some (Inr c, w1)" "w' = finally_block w1"
  using assms
  by (auto simp: loop_body_def split: prod.splits option.splits sum.splits)

text \<open>What a pass leaves untouched, whatever happens in it.\<close>

lemma pass_frame:
  assumes "loop_body code env w = Some (c, w')"
  shows "config (resilient w') = config (resilient w)"
    and "circuitBreaker (resilient w) = None \<longrightarrow> circuitBreaker (resilient w') = None"
    and "hook_calls OnThrottled (trace w') = hook_calls OnThrottled (trace w)"
    and "set (snapshots (trace w')) \<subseteq> set (snapshots (trace w))
           \<union> {s. exceptions s = exceptions (executionContext w)
                  \<and> attempts (executionContext w) \<le> attempts s}"
    and "attempts (executionContext w) \<le> attempts (executionContext w')"
    and "attempts (executionContext w') \<le> attempts (executionContext w) + 1"
    and "invocations (trace w') + attempts (executionContext w)
           = invocations (trace w) + attempts (executionContext w')"
    and "exceptions (executionContext w') = exceptions (executionContext w)
         \<or> (c = Continue
             \<and> (\<exists>e. exceptions (executionContext w') = exceptions (executionContext w) @ [e]))"
proof -
  let ?A = "attempts (executionContext w)" and ?X = "exceptions (executionContext w)"
  let ?S = "set (snapshots (trace w)) \<union> {s. exceptions s = ?X \<and> ?A \<le> attempts s}"
  have all: "config (resilient w') = config (resilient w)
      \<and> (circuitBreaker (resilient w) = None \<longrightarrow> circuitBreaker (resilient w') = None)
      \<and> hook_calls OnThrottled (trace w') = hook_calls OnThrottled (trace w)
      \<and> set (snapshots (trace w')) \<subseteq> ?S
      \<and> ?A \<le> attempts (executionContext w')
      \<and> attempts (executionContext w') \<le> ?A + 1
      \<and> invocations (trace w') + ?A = invocations (trace w) + attempts (executionContext w')
      \<and> (exceptions (executionContext w') = ?X
         \<or> (c = Continue \<and> (\<exists>e. exceptions (executionContext w') = ?X @ [e])))"
    using assms
  proof (cases rule: pass_anatomy)
    case (caught e w1 r w2)
    note t = try_frame [OF caught(1)]
    note cb = catch_block_frame [OF caught(2)]
    have "set (snapshots (trace w')) \<subseteq> ?S" using t(1,6,7) cb(5) caught(3) by auto
    moreover have "exceptions (executionContext w') = ?X
         \<or> (c = Continue \<and> (\<exists>e. exceptions (executionContext w') = ?X @ [e]))"
      using t(1) cb(6) caught(3,4) by (cases r) simp_all
    ultimately show ?thesis
      using t(2,3,4,7,8,9) cb(1,2,3) cb(4) [of OnThrottled] caught(3) by simp
  next
    case (left w1)
    note t = try_frame [OF left(1)]
    show ?thesis using t left(2) by simp
  qed
  from all show "config (resilient w') = config (resilient w)"
    and "circuitBreaker (resilient w) = None \<longrightarrow> circuitBreaker (resilient w') = None"
    and "hook_calls OnThrottled (trace w') = hook_calls OnThrottled (trace w)"
    and "set (snapshots (trace w')) \<subseteq> ?S"
    and "attempts (executionContext w) \<le> attempts (executionContext w')"
    and "attempts (executionContext w') \<le> attempts (executionContext w) + 1"
    and "invocations (trace w') + attempts (executionContext w)
           = invocations (trace w) + attempts (executionContext w')"
    and "exceptions (executionContext w') = exceptions (executionContext w)
         \<or> (c = Continue
             \<and> (\<exists>e. exceptions (executionContext w') = exceptions (executionContext w) @ [e]))"
    by simp_all
qed

text \<open>A pass does not end only when its race never settles.\<close>

lemma pass_hangs:
  assumes "loop_body code env w = None"
  shows "Promise_race (promises (resilient w) (code (attempts (executionContext w) + 1))) = None"
proof -
  obtain r u where b: "before_attempt env w = (r, u)" by (cases "before_attempt env w")
  note bf = before_attempt_eq [OF b]
  have tb: "try_block code env w = None"
    using assms by (auto simp: loop_body_def split: option.splits prod.splits sum.splits)
  from tb have r: "r = None" using b by (cases r) (simp_all add: try_block_def)
  obtain w2 where w2: "short_circuit u = Inr w2"
    using tb b r by (cases "short_circuit u") (simp_all add: try_block_def)
  note sc = short_circuit_Inr [OF w2]
  have "invoke_and_race code (count_attempt w2) = None"
    using tb b r w2 by (auto simp: try_block_def split: option.splits sum.splits prod.splits)
  then have "Promise_race (promises (resilient w2) (code (attempts (executionContext w) + 1)))
               = None"
    using sc(1) bf(1) by (simp add: invoke_and_race_None)
  moreover have "config (resilient w2) = config (resilient w)" using sc(4) bf(3) by simp
  ultimately show ?thesis using promises_config [of "resilient w2" "resilient w"] by simp
qed

section \<open>The circuit breaker\<close>

lemma execute_rejects_open:
  "state cb = Open \<Longrightarrow> CircuitBreaker_execute cb now = Inl OpenCircuitError"
  by (simp add: CircuitBreaker_execute_def)

lemma execute_admits_below:
  assumes "state cb \<noteq> Open" "cbAttempts cb = Num a" "failureThreshold cb = Some T" "a + 1 \<le> T"
  shows "CircuitBreaker_execute cb now = Inr (cb\<lparr>cbAttempts := Num (a + 1)\<rparr>)"
  using assms by (simp add: CircuitBreaker_execute_def CircuitState_Isolate_def Let_def)

lemma execute_trips:
  assumes "state cb \<noteq> Open" "cbAttempts cb = Num a" "failureThreshold cb = Some T" "T < a + 1"
  shows "\<exists>cb'. CircuitBreaker_execute cb now = Inr cb' \<and> state cb' = Open
           \<and> cbAttempts cb' = Num (a + 1) \<and> failureThreshold cb' = Some T
           \<and> resetTimeout cb' = resetTimeout cb
           \<and> timerId cb' = Some (now + resetTimeout cb)"
  using assms
  by (simp add: CircuitBreaker_execute_def CircuitState_Isolate_def Let_def transitionTo_def)

lemma executes_admitted:
  assumes "state cb \<noteq> Open" "failureThreshold cb = Some T" "cbAttempts cb = Num a"
    "a + int n \<le> T"
  shows "executes n cb now = Inr (cb\<lparr>cbAttempts := Num (a + int n)\<rparr>)"
  using assms
proof (induction n arbitrary: cb a)
  case 0
  then show ?case by simp
next
  case (Suc n)
  have step: "CircuitBreaker_execute cb now = Inr (cb\<lparr>cbAttempts := Num (a + 1)\<rparr>)"
    using Suc.prems by (intro execute_admits_below) auto
  have "executes n (cb\<lparr>cbAttempts := Num (a + 1)\<rparr>) now
          = Inr (cb\<lparr>cbAttempts := Num (a + 1), cbAttempts := Num (a + 1 + int n)\<rparr>)"
    using Suc.prems by (intro Suc.IH) auto
  with step show ?case by (simp add: add.assoc add.commute)
qed

lemma executes_append:
  "executes (m + n) cb now =
     (case executes m cb now of Inl e \<Rightarrow> Inl e | Inr cb' \<Rightarrow> executes n cb' now)"
  by (induction m arbitrary: cb) (simp_all split: sum.split)

lemma elapse_before_due:
  "timerId cb = Some due \<Longrightarrow> t < due \<Longrightarrow> elapse cb t = cb"
  by (simp add: elapse_def)

lemma elapse_half_opens:
  assumes "timerId cb = Some due" "due \<le> t" "state cb = Open" "failureThreshold cb = Some T"
  shows "state (elapse cb t) = HalfOpen \<and> cbAttempts (elapse cb t) = Num (T - 1)
         \<and> failureThreshold (elapse cb t) = Some T \<and> timerId (elapse cb t) = None
         \<and> resetTimeout (elapse cb t) = resetTimeout cb"
  using assms by (simp add: elapse_def timer_fires_def transitionTo_def Let_def)

lemma close_closes:
  "state cb \<noteq> Closed \<Longrightarrow>
   \<exists>c. CircuitBreaker_close cb t = Inr c \<and> state c = Closed \<and> cbAttempts c = Num 0
        \<and> timerId c = None"
  by (simp add: CircuitBreaker_close_def transitionTo_def Let_def)

text \<open>A pass in which the breaker is open throws before the attempt is counted.\<close>

lemma rejected_pass:
  assumes "before_attempt env w = (None, w1)" "circuitBreaker (resilient w1) = Some cb"
    "state cb = Open"
  shows "\<exists>w'. loop_body code env w = Some (Continue, w')
           \<and> invocations (trace w') = invocations (trace w)
           \<and> attempts (executionContext w') = attempts (executionContext w)
           \<and> exceptions (executionContext w')
                = exceptions (executionContext w) @ [OpenCircuitError]"
proof -
  have "short_circuit w1 = Inl OpenCircuitError"
    using assms(2,3) by (simp add: short_circuit_def execute_rejects_open)
  then have "try_block code env w = Some (Inl OpenCircuitError, w1)"
    using assms(1) by (simp add: try_block_def)
  moreover have "catch_block env OpenCircuitError w1 =
      (None, w1\<lparr>executionContext :=
                   (executionContext w1)
                     \<lparr>exceptions := exceptions (executionContext w1) @ [OpenCircuitError]\<rparr>\<rparr>)"
    by (simp add: catch_block_def)
  ultimately have "loop_body code env w =
      Some (Continue, finally_block (w1\<lparr>executionContext :=
                   (executionContext w1)
                     \<lparr>exceptions := exceptions (executionContext w1) @ [OpenCircuitError]\<rparr>\<rparr>))"
    by (simp add: loop_body_def)
  then show ?thesis using before_attempt_eq(1,2,5) [OF assms(1)] by simp
qed

text \<open>
  Claim C1, as the code has it. A breaker with threshold \<open>T \<ge> 1\<close> that is closed with its
  counter at zero admits \<open>T\<close> calls of \<open>execute\<close> in a row and stays closed, the counter
  then being \<open>T\<close>. The call after these, the first to make the counter exceed the
  threshold, is admitted as well and opens the circuit. While the circuit is open every
  call of \<open>execute\<close> throws the open-circuit error, and a pass of the orchestrator's loop
  that meets the open breaker records that error without calling the operation or
  counting an attempt. Until \<open>resetTimeout\<close> has elapsed the breaker stays as it is; once
  it has, the state is half-open and the counter \<open>T - 1\<close>. The next call, the probe, is
  admitted and leaves the breaker half-open with the counter at \<open>T\<close>; \<open>close()\<close> then
  returns it to closed with the counter at zero, while without it one more call is
  admitted and re-opens the circuit, after which calls are rejected again.
\<close>

theorem breaker_opens_when_threshold_exceeded:
  assumes thr: "failureThreshold cb = Some T" and pos: "1 \<le> T"
    and closed: "state cb = Closed" and fresh: "cbAttempts cb = Num 0"
  shows "(\<forall>n. int n \<le> T \<longrightarrow> executes n cb now = Inr (cb\<lparr>cbAttempts := Num (int n)\<rparr>))
    \<and> (\<exists>opened. executes (nat T + 1) cb now = Inr opened
          \<and> state opened = Open
          \<and> (\<forall>t. CircuitBreaker_execute opened t = Inl OpenCircuitError)
          \<and> (\<forall>code env w w1.
                before_attempt env w = (None, w1) \<and> circuitBreaker (resilient w1) = Some opened \<longrightarrow>
                  (\<exists>w'. loop_body code env w = Some (Continue, w')
                     \<and> invocations (trace w') = invocations (trace w)
                     \<and> attempts (executionContext w') = attempts (executionContext w)
                     \<and> exceptions (executionContext w')
                          = exceptions (executionContext w) @ [OpenCircuitError]))
          \<and> (\<forall>t. t < now + resetTimeout cb \<longrightarrow> elapse opened t = opened)
          \<and> (\<forall>t. now + resetTimeout cb \<le> t \<longrightarrow>
                state (elapse opened t) = HalfOpen
              \<and> cbAttempts (elapse opened t) = Num (T - 1)
              \<and> (\<exists>probed. CircuitBreaker_execute (elapse opened t) t = Inr probed
                    \<and> state probed = HalfOpen \<and> cbAttempts probed = Num T
                    \<and> (\<exists>c. CircuitBreaker_close probed t = Inr c
                          \<and> state c = Closed \<and> cbAttempts c = Num 0)
                    \<and> (\<exists>again. CircuitBreaker_execute probed t = Inr again
                          \<and> state again = Open
                          \<and> CircuitBreaker_execute again t = Inl OpenCircuitError))))"
proof -
  have first: "\<forall>n. int n \<le> T \<longrightarrow> executes n cb now = Inr (cb\<lparr>cbAttempts := Num (int n)\<rparr>)"
    using executes_admitted [of cb T 0 _ now] thr closed fresh by simp
  have upto: "executes (nat T) cb now = Inr (cb\<lparr>cbAttempts := Num T\<rparr>)"
    using executes_admitted [of cb T 0 "nat T" now] thr closed fresh pos by simp
  let ?full = "cb\<lparr>cbAttempts := Num T\<rparr>"
  obtain opened where trip: "CircuitBreaker_execute ?full now = Inr opened"
    and op: "state opened = Open" "failureThreshold opened = Some T"
      "timerId opened = Some (now + resetTimeout cb)"
    using execute_trips [of ?full T T now] thr closed by auto
  have "executes (nat T + 1) cb now =
          (case executes (nat T) cb now of Inl e \<Rightarrow> Inl e | Inr cb' \<Rightarrow> executes 1 cb' now)"
    by (rule executes_append)
  then have run: "executes (nat T + 1) cb now = Inr opened"
    using upto trip by simp
  have rejects: "\<forall>t. CircuitBreaker_execute opened t = Inl OpenCircuitError"
    using op(1) by (simp add: execute_rejects_open)
  have skips: "\<forall>code env w w1.
      before_attempt env w = (None, w1) \<and> circuitBreaker (resilient w1) = Some opened \<longrightarrow>
        (\<exists>w'. loop_body code env w = Some (Continue, w')
           \<and> invocations (trace w') = invocations (trace w)
           \<and> attempts (executionContext w') = attempts (executionContext w)
           \<and> exceptions (executionContext w')
                = exceptions (executionContext w) @ [OpenCircuitError])"
    using op(1) rejected_pass by blast
  have waits: "\<forall>t. t < now + resetTimeout cb \<longrightarrow> elapse opened t = opened"
    using op(3) by (simp add: elapse_before_due)
  have half: "\<forall>t. now + resetTimeout cb \<le> t \<longrightarrow>
                state (elapse opened t) = HalfOpen
              \<and> cbAttempts (elapse opened t) = Num (T - 1)
              \<and> (\<exists>probed. CircuitBreaker_execute (elapse opened t) t = Inr probed
                    \<and> state probed = HalfOpen \<and> cbAttempts probed = Num T
                    \<and> (\<exists>c. CircuitBreaker_close probed t = Inr c
                          \<and> state c = Closed \<and> cbAttempts c = Num 0)
                    \<and> (\<exists>again. CircuitBreaker_execute probed t = Inr again
                          \<and> state again = Open
                          \<and> CircuitBreaker_execute again t = Inl OpenCircuitError))"
  proof (intro allI impI)
    fix t assume due: "now + resetTimeout cb \<le> t"
    let ?h = "elapse opened t"
    have h: "state ?h = HalfOpen" "cbAttempts ?h = Num (T - 1)" "failureThreshold ?h = Some T"
      using elapse_half_opens [OF op(3) due op(1) op(2)] by simp_all
    let ?p = "?h\<lparr>cbAttempts := Num T\<rparr>"
    have probe: "CircuitBreaker_execute ?h t = Inr ?p"
      using execute_admits_below [of ?h "T - 1" T t] h by simp
    have p: "state ?p = HalfOpen" "cbAttempts ?p = Num T" "failureThreshold ?p = Some T"
      using h by simp_all
    obtain c where c: "CircuitBreaker_close ?p t = Inr c" "state c = Closed"
        "cbAttempts c = Num 0"
      using close_closes [of ?p t] p(1) by auto
    obtain again where a: "CircuitBreaker_execute ?p t = Inr again" "state again = Open"
      using execute_trips [of ?p T T t] p by auto
    have "CircuitBreaker_execute again t = Inl OpenCircuitError"
      using a(2) by (simp add: execute_rejects_open)
    with h probe p c a show "state ?h = HalfOpen \<and> cbAttempts ?h = Num (T - 1)
              \<and> (\<exists>probed. CircuitBreaker_execute ?h t = Inr probed
                    \<and> state probed = HalfOpen \<and> cbAttempts probed = Num T
                    \<and> (\<exists>c. CircuitBreaker_close probed t = Inr c
                          \<and> state c = Closed \<and> cbAttempts c = Num 0)
                    \<and> (\<exists>again. CircuitBreaker_execute probed t = Inr again
                          \<and> state again = Open
                          \<and> CircuitBreaker_execute again t = Inl OpenCircuitError))"
      by (intro conjI exI [of _ ?p] exI [of _ c] exI [of _ again]) simp_all
  qed
  from first run op(1) rejects skips waits half show ?thesis
    by blast
qed

text \<open>
  Claim C1 as stated fails. With a threshold of 2, two calls in a row leave the breaker
  closed, not open. And a half-open breaker (counter 1) takes two calls in a row, not
  one probe, before it is open again.
\<close>

theorem breaker_still_closed_at_threshold:
  "executes 2 (new_CircuitBreaker\<lparr>failureThreshold := Some 2\<rparr>) 0
     = Inr (new_CircuitBreaker\<lparr>failureThreshold := Some 2, cbAttempts := Num 2\<rparr>)
   \<and> state (new_CircuitBreaker\<lparr>failureThreshold := Some 2, cbAttempts := Num 2\<rparr>) = Closed
   \<and> executes 2 (new_CircuitBreaker\<lparr>failureThreshold := Some 2, state := HalfOpen, cbAttempts := Num 1\<rparr>) 0
     = Inr (new_CircuitBreaker\<lparr>failureThreshold := Some 2, state := Open, cbAttempts := Num 3,
             timerId := Some 0, openTimestamp := Some 0\<rparr>)"
  by (simp add: new_CircuitBreaker_def CircuitBreaker_execute_def CircuitState_Isolate_def
      transitionTo_def numeral_2_eq_2)

text \<open>The amended claim at a breaker with threshold 3 and a reset timeout of 5000.\<close>

theorem breaker_opens_when_threshold_exceeded_witness:
  "failureThreshold (new_CircuitBreaker\<lparr>failureThreshold := Some 3, resetTimeout := 5000\<rparr>) = Some 3
   \<and> (1::int) \<le> 3
   \<and> state (new_CircuitBreaker\<lparr>failureThreshold := Some 3, resetTimeout := 5000\<rparr>) = Closed
   \<and> cbAttempts (new_CircuitBreaker\<lparr>failureThreshold := Some 3, resetTimeout := 5000\<rparr>) = Num 0
   \<and> (\<exists>opened. executes 4 (new_CircuitBreaker\<lparr>failureThreshold := Some 3, resetTimeout := 5000\<rparr>) 0 = Inr opened
         \<and> state opened = Open \<and> state (elapse opened 5000) = HalfOpen
         \<and> cbAttempts (elapse opened 5000) = Num 2)"
  using breaker_opens_when_threshold_exceeded
    [of "new_CircuitBreaker\<lparr>failureThreshold := Some 3, resetTimeout := 5000\<rparr>" 3 0]
  by (simp add: new_CircuitBreaker_def) blast

text \<open>
  Claim C8 fails on the code. \<open>isolate()\<close> passes \<open>CircuitState.Isolate\<close>, which is
  \<open>undefined\<close>, to \<open>transitionTo\<close>: on a new breaker the guard raises and the breaker
  stays closed, so that the next \<open>execute\<close> is admitted and counted. \<open>execute\<close> tests the
  state against the same \<open>undefined\<close>: a breaker whose state is \<open>Isolated\<close> admits the
  call and counts it, too.
\<close>

theorem isolate_does_not_isolate:
  "CircuitBreaker_isolate new_CircuitBreaker 0 = Inl (ArgumentError ''CircuitState'')
   \<and> CircuitBreaker_execute new_CircuitBreaker 0 = Inr (new_CircuitBreaker\<lparr>cbAttempts := Num 1\<rparr>)
   \<and> CircuitBreaker_execute (new_CircuitBreaker\<lparr>state := Isolated\<rparr>) 0
       = Inr (new_CircuitBreaker\<lparr>state := Isolated, cbAttempts := Num 1\<rparr>)"
  by (simp add: CircuitBreaker_isolate_def CircuitState_Isolate_def transitionTo_def
      CircuitBreaker_execute_def new_CircuitBreaker_def)

section \<open>The retry policy\<close>

lemma strict_eq_iff: "strict_eq a b = (a = b \<and> a \<noteq> VNumber NaN)"
  by (induction a b rule: strict_eq.induct) auto

lemma strict_eq_sym: "strict_eq a b = strict_eq b a"
  by (auto simp: strict_eq_iff)

lemma strict_eq_objects: "strict_eq (VObject a) (VObject b) = (a = b)"
  by auto

lemma indexOf_from_found:
  "0 \<le> i \<Longrightarrow> (indexOf_from xs v i > - 1) = (\<exists>x\<in>set xs. strict_eq x v)"
  by (induction xs arbitrary: i) auto

lemma canAbortIf_iff: "canAbortIf p v = (\<exists>c\<in>set (abortConditions p). strict_eq c v)"
  by (simp add: canAbortIf_def indexOf_def indexOf_from_found)

lemma canRetryIf_iff: "canRetryIf p v = (\<exists>c\<in>set (retryConditions p). strict_eq c v)"
  by (simp add: canRetryIf_def indexOf_def indexOf_from_found)

lemma policy_apply_abortConditions:
  "set (abortConditions (policy_apply p c)) =
     set (abortConditions p) \<union> (case c of AbortIf v \<Rightarrow> {v} | _ \<Rightarrow> {})"
  by (cases c)
    (auto simp: abortIf_def retryIf_def stopAfter_def delayBetweenRetries_def useBackOff_def
      ifAbort_def ifRetry_def)

lemma policy_apply_retryConditions:
  "set (retryConditions (policy_apply p c)) =
     set (retryConditions p) \<union> (case c of RetryIf v \<Rightarrow> {v} | _ \<Rightarrow> {})"
  by (cases c)
    (auto simp: abortIf_def retryIf_def stopAfter_def delayBetweenRetries_def useBackOff_def
      ifAbort_def ifRetry_def)

lemma foldl_abortConditions:
  "set (abortConditions (foldl policy_apply p calls)) =
     set (abortConditions p) \<union> {v. AbortIf v \<in> set calls}"
proof (induction calls arbitrary: p)
  case Nil
  then show ?case by simp
next
  case (Cons c calls)
  show ?case
    by (cases c) (auto simp: Cons.IH policy_apply_abortConditions simp del: policy_apply.simps)
qed

lemma foldl_retryConditions:
  "set (retryConditions (foldl policy_apply p calls)) =
     set (retryConditions p) \<union> {v. RetryIf v \<in> set calls}"
proof (induction calls arbitrary: p)
  case Nil
  then show ?case by simp
next
  case (Cons c calls)
  show ?case
    by (cases c) (auto simp: Cons.IH policy_apply_retryConditions simp del: policy_apply.simps)
qed

lemma configured_abortConditions:
  "set (abortConditions (configured calls)) = {v. AbortIf v \<in> set calls}"
  by (simp add: configured_def foldl_abortConditions new_RetryPolicy_def)

lemma configured_retryConditions:
  "set (retryConditions (configured calls)) = {v. RetryIf v \<in> set calls}"
  by (simp add: configured_def foldl_retryConditions new_RetryPolicy_def)

lemma structurally_equal_objects:
  "structurally_equal h v c \<Longrightarrow> \<exists>a b. v = VObject a \<and> c = VObject b"
  by (auto simp: structurally_equal_def split: jsval.splits)

text \<open>
  Claim C10. For a policy configured by any chain of calls on a new object,
  \<open>canAbortIf v\<close> holds exactly when \<open>v\<close> is strictly equal to a value given to
  \<open>abortIf\<close>, and \<open>canRetryIf v\<close> exactly when it is strictly equal to one given to
  \<open>retryIf\<close>. An object that has the same properties as a configured condition but is
  another object matches neither.
\<close>

theorem conditions_match_by_strict_equality:
  "(canAbortIf (configured calls) v \<longleftrightarrow> (\<exists>c. AbortIf c \<in> set calls \<and> strict_eq v c))
   \<and> (canRetryIf (configured calls) v \<longleftrightarrow> (\<exists>c. RetryIf c \<in> set calls \<and> strict_eq v c))
   \<and> (structurally_equal h v c \<and> v \<noteq> c \<longrightarrow>
         \<not> canAbortIf (configured [AbortIf c]) v \<and> \<not> canRetryIf (configured [RetryIf c]) v)"
proof (intro conjI impI)
  show "canAbortIf (configured calls) v \<longleftrightarrow> (\<exists>c. AbortIf c \<in> set calls \<and> strict_eq v c)"
    by (auto simp: canAbortIf_iff configured_abortConditions strict_eq_sym [of v])
  show "canRetryIf (configured calls) v \<longleftrightarrow> (\<exists>c. RetryIf c \<in> set calls \<and> strict_eq v c)"
    by (auto simp: canRetryIf_iff configured_retryConditions strict_eq_sym [of v])
next
  assume h: "structurally_equal h v c \<and> v \<noteq> c"
  then obtain a b where ab: "v = VObject a" "c = VObject b" "a \<noteq> b"
    using structurally_equal_objects by blast
  then show "\<not> canAbortIf (configured [AbortIf c]) v"
    by (simp add: canAbortIf_iff configured_abortConditions)
  from ab show "\<not> canRetryIf (configured [RetryIf c]) v"
    by (simp add: canRetryIf_iff configured_retryConditions)
qed

text \<open>Two objects with the same properties: the one does not match the other.\<close>

theorem conditions_match_witness:
  "structurally_equal (\<lambda>r. if r = 1 \<or> r = 2 then Some [(''code'', VNumber (Num 7))] else None)
       (VObject 1) (VObject 2)
   \<and> VObject 1 \<noteq> VObject 2
   \<and> \<not> canAbortIf (configured [AbortIf (VObject 2)]) (VObject 1)
   \<and> \<not> canRetryIf (configured [RetryIf (VObject 2)]) (VObject 1)
   \<and> canAbortIf (configured [AbortIf (VObject 2)]) (VObject 2)"
  using conditions_match_by_strict_equality
    [where calls = "[AbortIf (VObject 2)]" and v = "VObject 1" and c = "VObject 2"
       and h = "\<lambda>r. if r = 1 \<or> r = 2 then Some [(''code'', VNumber (Num 7))] else None"]
    conditions_match_by_strict_equality
    [where calls = "[AbortIf (VObject 2)]" and v = "VObject 2" and c = "VObject 2"]
  by (simp add: structurally_equal_def)

section \<open>The arithmetic of the back-off\<close>


lemma pow2_powi: "pow2 e = 2 powi e"
  by (simp add: pow2_def power_int_def power_one_over inverse_eq_divide)

lemma pow2_pos [simp]: "0 < pow2 e"
  by (simp add: pow2_powi)














lemma fl_zero [simp]: "fl 0 = 0"
  by (simp add: fl_def)














section \<open>Facts about the loop and the run\<close>

lemma attempt_value_not_error:
  "attempt_value r code k = Some v \<Longrightarrow> attempt_error r code k = None"
  by (auto simp: attempt_value_def attempt_error_def split: option.splits sum.splits)

lemma attempt_error_config:
  "config r' = config r \<Longrightarrow> attempt_error r' code k = attempt_error r code k"
  using promises_config [of r' r] by (simp add: attempt_error_def)

lemma attempt_value_config:
  "config r' = config r \<Longrightarrow> attempt_value r' code k = attempt_value r code k"
  using promises_config [of r' r] by (simp add: attempt_value_def)

subsection \<open>The loop\<close>

text \<open>
  An invariant of the passes that go on holds when the loop ends, and the loop ends either
  by its condition or in a last pass that returns, breaks or throws.
\<close>

lemma loop_end_disj:
  assumes "loop fuel code env w = Some (ex, w')" and "P w"
    and step: "\<And>u u'. P u \<Longrightarrow> shouldRetry u \<Longrightarrow> loop_body code env u = Some (Continue, u') \<Longrightarrow> P u'"
  shows "(ex = Exhausted \<and> P w' \<and> \<not> shouldRetry w')
       \<or> (\<exists>u c. P u \<and> shouldRetry u \<and> loop_body code env u = Some (c, w')
              \<and> ((\<exists>v. c = Return v \<and> ex = Returned v) \<or> (c = Break \<and> ex = Aborted)
                  \<or> (\<exists>e. c = Throw e \<and> ex = Failed e)))"
  using assms(1,2)
proof (induction fuel arbitrary: w)
  case 0
  then show ?case by (auto split: if_splits)
next
  case (Suc fuel)
  show ?case
  proof (cases "shouldRetry w")
    case False
    then show ?thesis using Suc.prems by auto
  next
    case True
    then obtain c w1 where body: "loop_body code env w = Some (c, w1)"
      using Suc.prems(1) by (cases "loop_body code env w") auto
    show ?thesis
    proof (cases c)
      case (Return v)
      then show ?thesis using Suc.prems True body by auto
    next
      case Break
      then show ?thesis using Suc.prems True body by auto
    next
      case Continue
      then have "loop fuel code env w1 = Some (ex, w')" and "P w1"
        using Suc.prems True body step by auto
      then show ?thesis by (rule Suc.IH)
    next
      case (Throw e)
      then show ?thesis using Suc.prems True body by auto
    qed
  qed
qed

lemma loop_end:
  assumes "loop fuel code env w = Some (ex, w')" and "P w"
    and "\<And>u u'. P u \<Longrightarrow> shouldRetry u \<Longrightarrow> loop_body code env u = Some (Continue, u') \<Longrightarrow> P u'"
  obtains (exhausted) "ex = Exhausted" "P w'" "\<not> shouldRetry w'"
  | (returned) u v where "ex = Returned v" "P u" "shouldRetry u"
      "loop_body code env u = Some (Return v, w')"
  | (aborted) u where "ex = Aborted" "P u" "shouldRetry u"
      "loop_body code env u = Some (Break, w')"
  | (failed) u e where "ex = Failed e" "P u" "shouldRetry u"
      "loop_body code env u = Some (Throw e, w')"
proof -
  have "(ex = Exhausted \<and> P w' \<and> \<not> shouldRetry w')
       \<or> (\<exists>u c. P u \<and> shouldRetry u \<and> loop_body code env u = Some (c, w')
              \<and> ((\<exists>v. c = Return v \<and> ex = Returned v) \<or> (c = Break \<and> ex = Aborted)
                  \<or> (\<exists>e. c = Throw e \<and> ex = Failed e)))"
  proof (rule loop_end_disj [where P = P, OF assms(1,2)])
    fix u u'
    assume "P u" "shouldRetry u" "loop_body code env u = Some (Continue, u')"
    then show "P u'" by (rule assms(3))
  qed
  then show ?thesis using that by blast
qed

text \<open>What every pass preserves holds when the loop has ended, however it ended.\<close>

lemma loop_invariant:
  assumes run: "loop fuel code env w = Some (ex, w')" and base: "P w"
    and step: "\<And>u u' c. P u \<Longrightarrow> shouldRetry u \<Longrightarrow> loop_body code env u = Some (c, u') \<Longrightarrow> P u'"
  shows "P w'"
proof (rule loop_end [where P = P, OF run base])
  fix u u'
  assume "P u" "shouldRetry u" "loop_body code env u = Some (Continue, u')"
  then show "P u'" by (rule step)
next
  assume "P w'"
  then show "P w'" .
next
  fix u v
  assume "P u" "shouldRetry u" "loop_body code env u = Some (Return v, w')"
  then show "P w'" by (rule step)
next
  fix u
  assume "P u" "shouldRetry u" "loop_body code env u = Some (Break, w')"
  then show "P w'" by (rule step)
next
  fix u e
  assume "P u" "shouldRetry u" "loop_body code env u = Some (Throw e, w')"
  then show "P w'" by (rule step)
qed

lemma passes_invariant:
  assumes "passes n code env w = Some w'" and "P w"
    and step: "\<And>u u'. P u \<Longrightarrow> shouldRetry u \<Longrightarrow> loop_body code env u = Some (Continue, u') \<Longrightarrow> P u'"
  shows "P w'"
  using assms(1,2)
proof (induction n arbitrary: w)
  case 0
  then show ?case by simp
next
  case (Suc n)
  from Suc.prems(1) obtain w1 where "shouldRetry w"
    "loop_body code env w = Some (Continue, w1)" "passes n code env w1 = Some w'"
    by (auto split: if_splits option.splits control.splits)
  then show ?case using Suc.IH [of w1] step Suc.prems(2) by blast
qed

text \<open>More fuel does not change how a loop that ends has ended.\<close>

lemma loop_more_fuel:
  "loop fuel code env w = Some r \<Longrightarrow> loop (fuel + extra) code env w = Some r"
proof (induction fuel arbitrary: w)
  case 0
  then show ?case by (cases extra) (auto split: if_splits)
next
  case (Suc fuel)
  then show ?case
    by (auto split: if_splits option.splits control.splits)
qed

text \<open>A loop whose first \<open>n\<close> passes go on is the loop from where they lead.\<close>

lemma loop_passes:
  "passes n code env w = Some u \<Longrightarrow> loop (n + fuel) code env w = loop fuel code env u"
proof (induction n arbitrary: w)
  case 0
  then show ?case by simp
next
  case (Suc n)
  from Suc.prems obtain w1 where "shouldRetry w"
    "loop_body code env w = Some (Continue, w1)" "passes n code env w1 = Some u"
    by (auto split: if_splits option.splits control.splits)
  then show ?case using Suc.IH [of w1] by simp
qed

lemma passes_Suc:
  "passes n code env w = Some u \<Longrightarrow> shouldRetry u \<Longrightarrow>
     loop_body code env u = Some (Continue, u') \<Longrightarrow> passes (Suc n) code env w = Some u'"
proof (induction n arbitrary: w)
  case 0
  then show ?case by simp
next
  case (Suc n)
  from Suc.prems(1) obtain w1 where w1: "shouldRetry w"
    "loop_body code env w = Some (Continue, w1)" "passes n code env w1 = Some u"
    by (auto split: if_splits option.splits control.splits)
  have "passes (Suc n) code env w1 = Some u'" using Suc.IH [OF w1(3) Suc.prems(2,3)] .
  then show ?case using w1(1,2) by simp
qed

lemma loop_stops: "\<not> shouldRetry w \<Longrightarrow> loop fuel code env w = Some (Exhausted, w)"
  by (cases fuel) simp_all

text \<open>What the loop as a whole leaves untouched.\<close>

lemma loop_frame:
  assumes "loop fuel code env w = Some (ex, w')"
  shows "config (resilient w') = config (resilient w)"
    and "circuitBreaker (resilient w) = None \<longrightarrow> circuitBreaker (resilient w') = None"
    and "hook_calls OnThrottled (trace w') = hook_calls OnThrottled (trace w)"
    and "invocations (trace w') + attempts (executionContext w)
           = invocations (trace w) + attempts (executionContext w')"
proof -
  let ?P = "\<lambda>u. config (resilient u) = config (resilient w)
      \<and> (circuitBreaker (resilient w) = None \<longrightarrow> circuitBreaker (resilient u) = None)
      \<and> hook_calls OnThrottled (trace u) = hook_calls OnThrottled (trace w)
      \<and> invocations (trace u) + attempts (executionContext w)
           = invocations (trace w) + attempts (executionContext u)"
  have "?P w'"
  proof (rule loop_invariant [where P = ?P, OF assms])
    show "?P w" by simp
  next
    fix u u' c
    assume u: "?P u" "shouldRetry u" "loop_body code env u = Some (c, u')"
    show "?P u'" using pass_frame(1,2,3,7) [OF u(3)] u(1) by simp
  qed
  then show "config (resilient w') = config (resilient w)"
    and "circuitBreaker (resilient w) = None \<longrightarrow> circuitBreaker (resilient w') = None"
    and "hook_calls OnThrottled (trace w') = hook_calls OnThrottled (trace w)"
    and "invocations (trace w') + attempts (executionContext w)
           = invocations (trace w) + attempts (executionContext w')"
    by simp_all
qed

subsection \<open>Before and after the loop\<close>

lemma enter_frame [simp]:
  "resilient (snd (enter env w)) = resilient w"
  "attempts (executionContext (snd (enter env w))) = 0"
  "exceptions (executionContext (snd (enter env w))) = []"
  "executionContext (snd (enter env w)) = new_ExecutionContext (guid env)"
  "clock (snd (enter env w)) = clock w"
  "invocations (trace (snd (enter env w))) = invocations (trace w)"
  "h \<noteq> OnEntry \<Longrightarrow> hook_calls h (trace (snd (enter env w))) = hook_calls h (trace w)"
  "fst (enter env w) =
     (if onEntry (resilient w) then awaited (hookCode env OnEntry (new_ExecutionContext (guid env)))
      else None)"
  by (simp_all add: enter_def new_ExecutionContext_def)

lemma enter_snapshots:
  "set (snapshots (trace (snd (enter env w))))
     \<subseteq> set (snapshots (trace w)) \<union> {new_ExecutionContext (guid env)}"
  by (auto simp: enter_def)

lemma after_loop_frame:
  assumes "after_loop env w = (res, w')"
  shows "executionContext w' = executionContext w"
    and "resilient w' = resilient w"
    and "invocations (trace w') = invocations (trace w)"
    and "h \<noteq> OnFailure \<longrightarrow> h \<noteq> OnExit \<longrightarrow> h \<noteq> OnFallback \<longrightarrow>
           hook_calls h (trace w') = hook_calls h (trace w)"
    and "set (snapshots (trace w')) \<subseteq> set (snapshots (trace w)) \<union> {executionContext w}"
    and "res = (case fallbackExecution (resilient w) of
                  None \<Rightarrow> Inr VUndefined
                | Some f \<Rightarrow> fallback_result f)
         \<or> (\<exists>e. res = Inl e
               \<and> (raised_by env OnFailure e \<or> raised_by env OnExit e
                   \<or> raised_by env OnFallback e))"
  using assms
  by (auto simp: after_loop_def await_hook_def call_hook_def
      split: prod.splits option.splits if_splits intro: raised_byI)

lemma after_loop_quiet:
  assumes "quiet env"
  shows "fst (after_loop env w) =
     (case fallbackExecution (resilient w) of None \<Rightarrow> Inr VUndefined
      | Some f \<Rightarrow> fallback_result f)"
  using assms after_loop_frame(6) [of env w "fst (after_loop env w)" "snd (after_loop env w)"]
  by auto

text \<open>How a call of \<open>execute\<close> with a function can end.\<close>

lemma execute_cases [consumes 2, case_names refused returned left failed]:
  assumes "userCode env = Some code" "Resilient_execute fuel env w = Some (res, w')"
  obtains (refused) e where "enter env w = (Some e, w')" "res = Inl e"
  | (returned) u v where "enter env w = (None, u)"
      "loop fuel code env u = Some (Returned v, w')" "res = Inr v"
  | (left) u ex w3 where "enter env w = (None, u)" "loop fuel code env u = Some (ex, w3)"
      "ex = Aborted \<or> ex = Exhausted" "after_loop env w3 = (res, w')"
  | (failed) u e where "enter env w = (None, u)"
      "loop fuel code env u = Some (Failed e, w')" "res = Inl e"
  using assms
  by (auto simp: Resilient_execute_def split: prod.splits option.splits loop_exit.splits)

lemma shouldRetry_config:
  assumes "config (resilient u) = config r"
  shows "shouldRetry u =
     (case retryPolicy r of
        Some p \<Rightarrow> maxAttempts p = 0 \<or> attempts (executionContext u) < maxAttempts p
      | None \<Rightarrow> attempts (executionContext u) = 0)"
  using config_fields(1) [OF assms] by (auto simp: shouldRetry_def split: option.splits)

lemma attempt_value_Some:
  "attempt_value r code k = Some v \<Longrightarrow> \<exists>t. Promise_race (promises r (code k)) = Some (t, Inr v)"
  by (auto simp: attempt_value_def split: option.splits sum.splits)

lemma attempt_error_Some:
  "attempt_error r code k = Some e \<Longrightarrow> \<exists>t. Promise_race (promises r (code k)) = Some (t, Inl e)"
  by (auto simp: attempt_error_def split: option.splits sum.splits)

section \<open>Runs\<close>

text \<open>The definitions unfolded to follow a given run step by step.\<close>

lemmas run_defs = Resilient_execute_def enter_def after_loop_def loop_body_def try_block_def
  before_attempt_def short_circuit_def count_attempt_def invoke_and_race_def promises_def
  throttled_def classify_def succeed_def close_breaker_def catch_block_def finally_block_def
  call_hook_def await_hook_def
  wait_def wait_delay_def advance_def elapse_def timer_fires_def shouldRetry_def
  new_World_def new_Resilient_def new_ExecutionContext_def new_RetryPolicy_def
  new_CircuitBreaker_def CircuitBreaker_execute_def CircuitBreaker_close_def
  CircuitBreaker_open_def transitionTo_def CircuitState_Isolate_def
  throttle_call_def new_Throttle_def canAbortIf_def canRetryIf_def indexOf_def
  configured_def abortIf_def retryIf_def ifAbort_def ifRetry_def stopAfter_def
  fallbackTo_def retryWith_def
  always_def in_turn_def surroundings_def opened_breaker_def Let_def

section \<open>The deadline\<close>

text \<open>What the \<open>try\<close> block can throw.\<close>

lemma try_throws:
  assumes "try_block code env w = Some (Inl e, w1)"
  shows "e = OpenCircuitError \<or> (\<exists>m. e = TypeError m) \<or> (\<exists>h. raised_by env h e)
       \<or> attempt_error (resilient w) code (attempts (executionContext w) + 1) = Some e"
  using try_kinds [OF assms] by auto

lemma race_before_deadline:
  assumes "timeout r = Some T" "throttled r = None" "d < T"
  shows "Promise_race (promises r (d, res))
     = (case res of
          Returns v \<Rightarrow> Some (d, Inr v)
        | Throws e \<Rightarrow> Some (d, Inl e)
        | Raises e \<Rightarrow> Some (0, Inl e))"
  using assms by (cases res) (auto simp: promises_def)

lemma race_deadline_first:
  assumes "timeout r = Some T" "0 < T" "T \<le> d" "\<forall>e. res \<noteq> Raises e"
  shows "Promise_race (promises r (d, res)) = Some (T, Inl (TimeoutError T))"
  using assms
  by (cases res; cases "throttled r") (auto simp: promises_def)

text \<open>
  Claim C6, as the code has it, for any pass of the loop of an orchestrator whose timeout
  is \<open>T > 0\<close>, the operation's call in that pass settling after \<open>d\<close> milliseconds. If
  \<open>d < T\<close> (and \<open>rateLimit\<close> is not set) and neither the operation nor a hook raises an
  error whose name is \<open>TimeoutError\<close>, the pass does not call \<open>onTimeout\<close>. If \<open>T < d\<close>,
  the operation returns a promise and the pass makes its attempt, the attempt fails with
  the timeout error carrying \<open>T\<close>: the pass calls \<open>onTimeout\<close> once if the hook is
  installed, and then appends exactly that error to the exceptions and goes on to the next
  pass, unless the hook itself raises, which ends the loop with nothing appended.
\<close>

theorem timeout_hook_follows_the_deadline:
  assumes T: "timeout (resilient w) = Some T" "0 < T"
    and body: "loop_body code env w = Some (c, w')"
    and call: "code (attempts (executionContext w) + 1) = (d, res)"
  shows "(d < T \<and> throttled (resilient w) = None
            \<and> (\<forall>e. res = Throws e \<or> res = Raises e \<longrightarrow> error_name e \<noteq> Some ''TimeoutError'')
            \<and> (\<forall>h e. raised_by env h e \<longrightarrow> error_name e \<noteq> Some ''TimeoutError'')
          \<longrightarrow> hook_calls OnTimeout (trace w') = hook_calls OnTimeout (trace w))
    \<and> (T < d \<and> (\<forall>e. res \<noteq> Raises e)
            \<and> attempts (executionContext w') = attempts (executionContext w) + 1
          \<longrightarrow> hook_calls OnTimeout (trace w')
                 = hook_calls OnTimeout (trace w) + (if onTimeout (resilient w) then 1 else 0)
            \<and> ((c = Continue
                  \<and> exceptions (executionContext w')
                       = exceptions (executionContext w) @ [TimeoutError T])
                \<or> (\<exists>e. c = Throw e \<and> onTimeout (resilient w) \<and> raised_by env OnTimeout e
                      \<and> exceptions (executionContext w') = exceptions (executionContext w)))
            \<and> (\<not> onTimeout (resilient w) \<or> (\<forall>e. \<not> raised_by env OnTimeout e)
                \<longrightarrow> c = Continue
                  \<and> exceptions (executionContext w')
                       = exceptions (executionContext w) @ [TimeoutError T]))"
proof (intro conjI impI)
  let ?k = "attempts (executionContext w) + 1"
  assume early: "d < T \<and> throttled (resilient w) = None
            \<and> (\<forall>e. res = Throws e \<or> res = Raises e \<longrightarrow> error_name e \<noteq> Some ''TimeoutError'')
            \<and> (\<forall>h e. raised_by env h e \<longrightarrow> error_name e \<noteq> Some ''TimeoutError'')"
  have "Promise_race (promises (resilient w) (d, res))
      = (case res of Returns v \<Rightarrow> Some (d, Inr v) | Throws e \<Rightarrow> Some (d, Inl e)
         | Raises e \<Rightarrow> Some (0, Inl e))"
    using early by (intro race_before_deadline [OF T(1)]) simp_all
  then have "Promise_race (promises (resilient w) (code ?k))
      = (case res of Returns v \<Rightarrow> Some (d, Inr v) | Throws e \<Rightarrow> Some (d, Inl e)
         | Raises e \<Rightarrow> Some (0, Inl e))"
    by (simp only: call)
  then have "attempt_error (resilient w) code ?k
      = (case res of Returns v \<Rightarrow> None | Throws e \<Rightarrow> Some e | Raises e \<Rightarrow> Some e)"
    by (cases res) (simp_all add: attempt_error_def)
  then have op: "\<forall>e. attempt_error (resilient w) code ?k = Some e
      \<longrightarrow> error_name e \<noteq> Some ''TimeoutError''"
    using early by (cases res) simp_all
  from body show "hook_calls OnTimeout (trace w') = hook_calls OnTimeout (trace w)"
  proof (cases rule: pass_anatomy)
    case (caught e w1 r w2)
    have "error_name e \<noteq> Some ''TimeoutError''"
      using try_throws [OF caught(1)] op early by auto
    then have "hook_calls OnTimeout (trace w2) = hook_calls OnTimeout (trace w1)"
      using catch_block_cases [OF caught(2)] by auto
    then show ?thesis using try_frame(5) [OF caught(1)] caught(3) by simp
  next
    case (left w1)
    then show ?thesis using try_frame(5) [OF left(1)] by simp
  qed
next
  let ?k = "attempts (executionContext w) + 1"
  assume late: "T < d \<and> (\<forall>e. res \<noteq> Raises e)
      \<and> attempts (executionContext w') = attempts (executionContext w) + 1"
  have "Promise_race (promises (resilient w) (d, res)) = Some (T, Inl (TimeoutError T))"
    using late by (intro race_deadline_first [OF T]) simp_all
  then have "Promise_race (promises (resilient w) (code ?k)) = Some (T, Inl (TimeoutError T))"
    by (simp only: call)
  then have err: "attempt_error (resilient w) code ?k = Some (TimeoutError T)"
    and val: "attempt_value (resilient w) code ?k = None"
    by (simp_all add: attempt_error_def attempt_value_def)
  have all: "hook_calls OnTimeout (trace w')
                 = hook_calls OnTimeout (trace w) + (if onTimeout (resilient w) then 1 else 0)
      \<and> ((c = Continue
            \<and> exceptions (executionContext w')
                 = exceptions (executionContext w) @ [TimeoutError T])
          \<or> (\<exists>e. c = Throw e \<and> onTimeout (resilient w) \<and> raised_by env OnTimeout e
                \<and> exceptions (executionContext w') = exceptions (executionContext w)))"
    using body
  proof (cases rule: pass_anatomy)
    case (caught e w1 r w2)
    note cf = catch_block_frame [OF caught(2)]
    have a1: "attempts (executionContext w1) = attempts (executionContext w) + 1"
      using late cf(1) caught(3) by simp
    have e: "e = TimeoutError T"
      using try_kinds [OF caught(1)] a1 err val by auto
    have hook: "onTimeout (resilient w1) = onTimeout (resilient w)"
      using config_fields(10) [OF try_frame(2) [OF caught(1)]] .
    have cc: "hook_calls OnTimeout (trace w2)
          = hook_calls OnTimeout (trace w1) + (if onTimeout (resilient w) then 1 else 0)"
      "r = (if onTimeout (resilient w)
            then awaited (hookCode env OnTimeout (executionContext w1)) else None)"
      using catch_block_cases [OF caught(2)] e hook by simp_all
    have calls: "hook_calls OnTimeout (trace w')
        = hook_calls OnTimeout (trace w) + (if onTimeout (resilient w) then 1 else 0)"
      using cc(1) try_frame(5) [OF caught(1)] caught(3) by simp
    show ?thesis
    proof (cases r)
      case None
      then show ?thesis
        using calls caught(3,4) cf(6) try_frame(1) [OF caught(1)] e by simp
    next
      case (Some e')
      then have "onTimeout (resilient w)" "raised_by env OnTimeout e'"
        using cc(2) by (auto split: if_splits intro: raised_byI)
      then show ?thesis
        using calls caught(3,4) cf(6) try_frame(1) [OF caught(1)] Some by simp
    qed
  next
    case (left w1)
    have "attempts (executionContext w1) = attempts (executionContext w) + 1"
      using late left(2) by simp
    then show ?thesis using try_kinds [OF left(1)] err val by auto
  qed
  from all show "hook_calls OnTimeout (trace w')
      = hook_calls OnTimeout (trace w) + (if onTimeout (resilient w) then 1 else 0)"
    by simp
  from all show "(c = Continue
            \<and> exceptions (executionContext w')
                 = exceptions (executionContext w) @ [TimeoutError T])
          \<or> (\<exists>e. c = Throw e \<and> onTimeout (resilient w) \<and> raised_by env OnTimeout e
                \<and> exceptions (executionContext w') = exceptions (executionContext w))"
    by simp
  assume "\<not> onTimeout (resilient w) \<or> (\<forall>e. \<not> raised_by env OnTimeout e)"
  with all show "c = Continue"
    and "exceptions (executionContext w') = exceptions (executionContext w) @ [TimeoutError T]"
    by auto
qed

text \<open>
  Claim C6 as stated fails: the \<open>catch\<close> block recognises a timeout by the name of the
  error. An operation that raises its own error named \<open>TimeoutError\<close> after 10
  milliseconds, long before the deadline of 100, triggers \<open>onTimeout\<close>.
\<close>

theorem error_named_timeout_triggers_the_hook:
  "map_option (hook_calls OnTimeout \<circ> trace \<circ> snd)
     (Resilient_execute 1
        (surroundings (always 10 (Throws (OperationError ''TimeoutError'' ''socket timed out''))))
        (new_World (new_Resilient\<lparr>timeout := Some 100, onTimeout := True\<rparr>) 0))
     = Some 1
   \<and> map_option (exceptions \<circ> executionContext \<circ> snd)
     (Resilient_execute 1
        (surroundings (always 10 (Throws (OperationError ''TimeoutError'' ''socket timed out''))))
        (new_World (new_Resilient\<lparr>timeout := Some 100, onTimeout := True\<rparr>) 0))
     = Some [OperationError ''TimeoutError'' ''socket timed out'']"
  by (simp add: run_defs)

text \<open>The amended claim at a deadline of 15000 and an operation that takes 20000.\<close>

theorem timeout_hook_follows_the_deadline_witness:
  "timeout (resilient (new_World (new_Resilient\<lparr>timeout := Some 15000, onTimeout := True\<rparr>) 0))
     = Some 15000
   \<and> (0::nat) < 15000
   \<and> always 20000 (Returns VNull)
        (attempts (executionContext (new_World (new_Resilient\<lparr>timeout := Some 15000, onTimeout := True\<rparr>) 0)) + 1)
       = (20000, Returns VNull)
   \<and> (\<exists>w'. loop_body (always 20000 (Returns VNull)) (surroundings (always 20000 (Returns VNull)))
          (new_World (new_Resilient\<lparr>timeout := Some 15000, onTimeout := True\<rparr>) 0)
          = Some (Continue, w')
        \<and> exceptions (executionContext w') = [TimeoutError 15000]
        \<and> hook_calls OnTimeout (trace w') = 1)"
proof -
  let ?code = "always 20000 (Returns VNull)"
  let ?w = "new_World (new_Resilient\<lparr>timeout := Some 15000, onTimeout := True\<rparr>) 0"
  have T: "timeout (resilient ?w) = Some 15000" "(0::nat) < 15000"
    by (simp_all add: new_World_def new_Resilient_def)
  have call: "?code (attempts (executionContext ?w) + 1) = (20000, Returns VNull)"
    by (simp add: always_def)
  have "\<exists>c w'. loop_body ?code (surroundings ?code) ?w = Some (c, w')
      \<and> attempts (executionContext w') = attempts (executionContext ?w) + 1"
    by (simp add: run_defs)
  then obtain c w' where body: "loop_body ?code (surroundings ?code) ?w = Some (c, w')"
    and counted: "attempts (executionContext w') = attempts (executionContext ?w) + 1"
    by blast
  have late: "(15000::nat) < 20000 \<and> (\<forall>e. Returns VNull \<noteq> Raises e)
      \<and> attempts (executionContext w') = attempts (executionContext ?w) + 1"
    using counted by simp
  have quiet: "\<not> onTimeout (resilient ?w)
      \<or> (\<forall>e. \<not> raised_by (surroundings ?code) OnTimeout e)"
    by (simp add: raised_by_def surroundings_def)
  from timeout_hook_follows_the_deadline [OF T body call] late quiet
  have "c = Continue"
    "exceptions (executionContext w') = exceptions (executionContext ?w) @ [TimeoutError 15000]"
    "hook_calls OnTimeout (trace w')
       = hook_calls OnTimeout (trace ?w) + (if onTimeout (resilient ?w) then 1 else 0)"
    by blast+
  then have "c = Continue" "exceptions (executionContext w') = [TimeoutError 15000]"
    "hook_calls OnTimeout (trace w') = 1"
    by (simp_all add: new_World_def new_Resilient_def new_ExecutionContext_def)
  with body T call show ?thesis by blast
qed

section \<open>Throttling\<close>

text \<open>No run calls \<open>onThrottled\<close>: the code never does.\<close>

lemma onThrottled_never_called:
  assumes code: "userCode env = Some code"
    and run: "Resilient_execute fuel env w = Some (res, w')"
  shows "hook_calls OnThrottled (trace w') = hook_calls OnThrottled (trace w)"
  using code run
proof (cases rule: execute_cases)
  case (refused e)
  then have "w' = snd (enter env w)" by simp
  then show ?thesis by simp
next
  case (returned u v)
  then have "u = snd (enter env w)" by simp
  then show ?thesis using loop_frame(3) [OF returned(2)] by simp
next
  case (left u ex w3)
  then have "u = snd (enter env w)" by simp
  then show ?thesis
    using loop_frame(3) [OF left(2)] after_loop_frame(4) [OF left(4), of OnThrottled] by simp
next
  case (failed u e)
  then have "u = snd (enter env w)" by simp
  then show ?thesis using loop_frame(3) [OF failed(2)] by simp
qed

text \<open>
  Claim C9 fails on the code. \<open>throttle(1000)\<close> stores the limit in \<open>throttleLimit\<close>,
  while \<open>execute\<close> tests \<open>rateLimit\<close>, which no method ever assigns. Two runs in a row
  on the orchestrator so configured, with an operation that takes 10 milliseconds, both
  call the operation at once, at the times 0 and 10, well within the interval of 1000;
  neither run defers its call, and \<open>onThrottled\<close> is not called.
\<close>

theorem throttle_limit_is_never_read:
  "Resilient_throttle 1000 (ifThrottled new_Resilient)
     = Inr (new_Resilient\<lparr>onThrottled := True, throttleLimit := Some 1000\<rparr>)
   \<and> map_option (trace \<circ> snd)
       (execute_twice 1 (surroundings (always 10 (Returns VNull)))
          (new_World (new_Resilient\<lparr>onThrottled := True, throttleLimit := Some 1000\<rparr>) 0))
     = Some [Invoked 1 0, Invoked 1 10]
   \<and> map_option fst
       (execute_twice 1 (surroundings (always 10 (Returns VNull)))
          (new_World (new_Resilient\<lparr>onThrottled := True, throttleLimit := Some 1000\<rparr>) 0))
     = Some (Inr VNull)"
  by (simp add: run_defs execute_twice_def Resilient_throttle_def ifThrottled_def)

end
